theory Spec2Isabelle
  imports Main
begin

section \<open>The host environment: errors and the timer table\<close>

text \<open>
  The program is \<^verbatim>\<open>src/index.ts\<close>: a debounce helper and the class
  \<^verbatim>\<open>NonInteractiveCallbackManager\<close>. It runs on a single-threaded event loop and
  uses four services of the host: timers (\<^verbatim>\<open>setTimeout\<close>, \<^verbatim>\<open>clearTimeout\<close>),
  event listeners, a mutation observer and \<^verbatim>\<open>document.querySelector\<close>. The services
  are modelled as explicit state; every function of the source becomes a function on
  that state, and every \<^verbatim>\<open>throw\<close> becomes an \<open>Inl\<close> result.

  Both \<^verbatim>\<open>throw new Error(...)\<close> of the source produce a plain \<^verbatim>\<open>Error\<close> that
  differs only in its message, so the error value keeps the message.
\<close>

datatype error = Error string | TypeError string

text \<open>
  The timer table. A pending timer is its handle, the time at which it is due, and
  the deferred call \<^verbatim>\<open>() => fn.apply(this, args)\<close>, kept as the function reference
  (\<open>None\<close> when \<^verbatim>\<open>fn\<close> is \<^verbatim>\<open>undefined\<close>) and the argument list. Handles are taken
  from a counter, as browsers do, so a handle is never used twice. Time is counted in
  whole milliseconds.
\<close>

record ('f, 'v) host =
  clock :: nat
  next_handle :: int
  timers :: "(int \<times> nat \<times> 'f option \<times> 'v list) list"

definition setTimeout ::
  "'f option \<Rightarrow> 'v list \<Rightarrow> nat \<Rightarrow> ('f, 'v) host \<Rightarrow> int \<times> ('f, 'v) host" where
  "setTimeout g args ms h =
     (next_handle h,
      h\<lparr>next_handle := next_handle h + 1,
        timers := timers h @ [(next_handle h, clock h + ms, g, args)]\<rparr>)"

definition clearTimeout :: "int \<Rightarrow> ('f, 'v) host \<Rightarrow> ('f, 'v) host" where
  "clearTimeout t h = h\<lparr>timers := filter (\<lambda>e. fst e \<noteq> t) (timers h)\<rparr>"

text \<open>
  A program state is a pair \<open>(m, h)\<close> of the program's own heap \<open>m\<close> and the timer
  table \<open>h\<close>. Calling a function value is given by an interpretation
  \<open>invoke g args\<close> of function references as state transformers.
\<close>

definition elapse :: "nat \<Rightarrow> 'm \<times> ('f, 'v) host \<Rightarrow> 'm \<times> ('f, 'v) host" where
  "elapse dt s = (case s of (m, h) \<Rightarrow> (m, h\<lparr>clock := clock h + dt\<rparr>))"

text \<open>
  The event loop runs a pending timer once it is due: the entry leaves the table,
  then the deferred call runs. A deferred call of an undefined \<^verbatim>\<open>fn\<close> throws inside
  the timer task, which changes nothing else.
\<close>

definition runTimer ::
  "('f \<Rightarrow> 'v list \<Rightarrow> 'm \<times> ('f, 'v) host \<Rightarrow> 'm \<times> ('f, 'v) host) \<Rightarrow>
   int \<Rightarrow> 'm \<times> ('f, 'v) host \<Rightarrow> 'm \<times> ('f, 'v) host" where
  "runTimer invoke t s =
     (case s of (m, h) \<Rightarrow>
        (case find (\<lambda>e. fst e = t) (timers h) of
           None \<Rightarrow> s
         | Some (_, due, g, args) \<Rightarrow>
             if clock h < due then s
             else (case g of
                     None \<Rightarrow> (m, clearTimeout t h)
                   | Some f \<Rightarrow> invoke f args (m, clearTimeout t h))))"

section \<open>The debounce primitive\<close>

text \<open>
  \<^verbatim>\<open>debounce(n, immed, f)\<close> inspects the runtime class of its second argument: a
  boolean, a function, or anything else. The closure it returns owns the variables
  \<^verbatim>\<open>fn\<close>, \<^verbatim>\<open>now\<close>, \<^verbatim>\<open>n\<close> (here \<open>delay\<close>) and \<^verbatim>\<open>timer\<close>; the record below is that
  closure. With a boolean second argument and no third argument \<^verbatim>\<open>fn\<close> is
  \<^verbatim>\<open>undefined\<close>.
\<close>

datatype 'f immed = Boolean bool | Function 'f | Neither

record 'f wrapper =
  fn :: "'f option"
  now :: bool
  delay :: nat
  timer :: int

definition debounce :: "nat \<Rightarrow> 'f immed \<Rightarrow> 'f option \<Rightarrow> error + 'f wrapper" where
  "debounce n immed f =
     (case immed of
        Boolean b \<Rightarrow> Inr \<lparr>fn = f, now = b, delay = n, timer = - 1\<rparr>
      | Function g \<Rightarrow> Inr \<lparr>fn = Some g, now = False, delay = n, timer = - 1\<rparr>
      | Neither \<Rightarrow> Inl (TypeError ''Unrecognized arguments to function deb.''))"

text \<open>
  One call of the returned wrapper: the leading call when \<^verbatim>\<open>timer === -1 && now\<close>,
  then \<^verbatim>\<open>clearTimeout(timer)\<close>, then \<^verbatim>\<open>timer = setTimeout(..., n)\<close>; the result is
  the new handle, the updated closure and the new state. Applying an undefined
  \<^verbatim>\<open>fn\<close> throws. The wrapped function is assumed not to call its own wrapper.
\<close>

definition call_debounced ::
  "('f \<Rightarrow> 'v list \<Rightarrow> 'm \<times> ('f, 'v) host \<Rightarrow> 'm \<times> ('f, 'v) host) \<Rightarrow>
   'f wrapper \<Rightarrow> 'v list \<Rightarrow> 'm \<times> ('f, 'v) host \<Rightarrow>
   error + (int \<times> 'f wrapper \<times> ('m \<times> ('f, 'v) host))" where
  "call_debounced invoke d args s =
     (case (if timer d = - 1 \<and> now d
            then (case fn d of
                    None \<Rightarrow> Inl (TypeError ''Cannot read properties of undefined'')
                  | Some g \<Rightarrow> Inr (invoke g args s))
            else Inr s) of
        Inl e \<Rightarrow> Inl e
      | Inr (m, h) \<Rightarrow>
          (case setTimeout (fn d) args (delay d) (clearTimeout (timer d) h) of
             (t, h') \<Rightarrow> Inr (t, d\<lparr>timer := t\<rparr>, (m, h'))))"

text \<open>
  To observe the primitive on its own, the wrapped function is an opaque function
  whose only visible effect is that it was applied: each application is appended to
  a log. A wrapper is driven by calls, by the passing of time and by the event loop
  running a timer. A call that throws leaves the state as it was.
\<close>

definition record_call ::
  "'f \<Rightarrow> 'v list \<Rightarrow> ('f \<times> 'v list) list \<times> ('f, 'v) host \<Rightarrow>
   ('f \<times> 'v list) list \<times> ('f, 'v) host" where
  "record_call g args s = (case s of (log, h) \<Rightarrow> (log @ [(g, args)], h))"

datatype 'v wrapper_input = WCall "'v list" | WElapse nat | WTimer int

fun wrapper_step ::
  "'v wrapper_input \<Rightarrow> 'f wrapper \<times> (('f \<times> 'v list) list \<times> ('f, 'v) host) \<Rightarrow>
   'f wrapper \<times> (('f \<times> 'v list) list \<times> ('f, 'v) host)" where
  "wrapper_step (WCall args) (d, s) =
     (case call_debounced record_call d args s of
        Inl e \<Rightarrow> (d, s)
      | Inr (t, d', s') \<Rightarrow> (d', s'))"
| "wrapper_step (WElapse dt) (d, s) = (d, elapse dt s)"
| "wrapper_step (WTimer t) (d, s) = (d, runTimer record_call t s)"

definition wrapper_run ::
  "'v wrapper_input list \<Rightarrow> 'f wrapper \<times> (('f \<times> 'v list) list \<times> ('f, 'v) host) \<Rightarrow>
   'f wrapper \<times> (('f \<times> 'v list) list \<times> ('f, 'v) host)" where
  "wrapper_run ins st = fold wrapper_step ins st"

definition applied :: "'f wrapper \<times> (('f \<times> 'v list) list \<times> ('f, 'v) host) \<Rightarrow> ('f \<times> 'v list) list" where
  "applied st = fst (snd st)"

definition pending :: "'f wrapper \<times> (('f \<times> 'v list) list \<times> ('f, 'v) host) \<Rightarrow> (int \<times> nat \<times> 'f option \<times> 'v list) list" where
  "pending st = timers (snd (snd st))"

section \<open>The DOM as the watcher uses it\<close>

text \<open>
  A node is known by its identity. Of an element the watcher reads the \<^verbatim>\<open>id\<close>
  attribute (the empty string when there is none) and \<^verbatim>\<open>parentNode\<close> (\<^verbatim>\<open>null\<close> for
  an element that is not attached to a parent). Of an event it reads the target.
\<close>

type_synonym node = nat

record element =
  node :: node
  id_attr :: string
  parentNode :: "node option"

record event =
  ev_type :: string
  ev_target :: node

datatype InteractiveEvents = MOUSEMOVE | ALPHANUM | ANY_KEY | CLICK | CHANGE

fun event_name :: "InteractiveEvents \<Rightarrow> string" where
  "event_name MOUSEMOVE = ''mousemove''"
| "event_name ALPHANUM = ''keypress''"
| "event_name ANY_KEY = ''keydown''"
| "event_name CLICK = ''click''"
| "event_name CHANGE = ''change''"

text \<open>
  The function values the watcher hands to the host. Listeners: the debounced
  \<^verbatim>\<open>this.listener\<close>, the bound \<^verbatim>\<open>this.focusHandler\<close> and the bound
  \<^verbatim>\<open>this.notify\<close>. Deferred calls: \<^verbatim>\<open>this.notify\<close>, the arrow function wrapped by
  \<^verbatim>\<open>this.listener\<close> (here \<open>Fpulse\<close>) and the empty function of the field
  initialiser. A registered callback is opaque and known by its identity; applying it
  is recorded in \<open>invoked\<close> together with the argument it received. Registered
  callbacks are assumed to return normally and not to call back into the watcher.
\<close>

datatype event_target = Document | Elem node

datatype handler = Hlistener | HfocusHandler | Hnotify

datatype func = Fnotify | Fpulse | Fnoop

type_synonym callback = nat

record page =
  listeners :: "(event_target \<times> string \<times> handler) list"
  observing :: "node option"
  contains :: "node \<Rightarrow> node \<Rightarrow> bool"
  invoked :: "(callback \<times> event option) list"

text \<open>
  \<^verbatim>\<open>addEventListener\<close> ignores a listener that is already registered for the same
  target and type; \<^verbatim>\<open>removeEventListener\<close> removes it when present.
\<close>

definition addEventListener :: "event_target \<Rightarrow> string \<Rightarrow> handler \<Rightarrow> page \<Rightarrow> page" where
  "addEventListener tgt ty f p =
     (if (tgt, ty, f) \<in> set (listeners p) then p
      else p\<lparr>listeners := listeners p @ [(tgt, ty, f)]\<rparr>)"

definition removeEventListener :: "event_target \<Rightarrow> string \<Rightarrow> handler \<Rightarrow> page \<Rightarrow> page" where
  "removeEventListener tgt ty f p =
     p\<lparr>listeners := filter (\<lambda>l. l \<noteq> (tgt, ty, f)) (listeners p)\<rparr>"

section \<open>The watcher\<close>

text \<open>
  The fields of the class, and the two closures the constructor creates: the wrapper
  stored in \<^verbatim>\<open>this.listener\<close> and the local \<^verbatim>\<open>debounced\<close> that the listener's
  function captures. The mutation observer is an object of the host; whether it is
  connected is the field \<open>observing\<close> of the page.
\<close>

record NonInteractiveCallbackManager =
  selector :: string
  element :: element
  eventList :: "InteractiveEvents list"
  registeredCallbacks :: "callback list"
  notifyOnFocusLoss :: bool
  notifyOnMouseLeave :: bool
  timeoutHandle :: int
  listener :: "func wrapper"
  debounced :: "func wrapper"

type_synonym state = "(NonInteractiveCallbackManager \<times> page) \<times> (func, event) host"

definition this :: "state \<Rightarrow> NonInteractiveCallbackManager" where
  "this s = fst (fst s)"

definition page_of :: "state \<Rightarrow> page" where
  "page_of s = snd (fst s)"

definition host_of :: "state \<Rightarrow> (func, event) host" where
  "host_of s = snd s"

text \<open>
  The constructor's parameter object. \<^verbatim>\<open>selector\<close> and \<^verbatim>\<open>element\<close> are optional in
  the type; the other five have destructuring defaults, which apply when the caller
  passes \<^verbatim>\<open>undefined\<close>. Timeouts are whole milliseconds.
\<close>

record RequestCallbackConstructorParams =
  p_selector :: "string option"
  p_element :: "element option"
  p_notifyOnMouseLeave :: "bool option"
  p_notifyOnFocusLoss :: "bool option"
  p_callbackDebounceTimeout :: "nat option"
  p_eventDebounceTimeout :: "nat option"
  p_interactiveEvents :: "InteractiveEvents list option"

definition default_to :: "'a \<Rightarrow> 'a option \<Rightarrow> 'a" where
  "default_to d x = (case x of None \<Rightarrow> d | Some v \<Rightarrow> v)"

definition assertExists :: "'a option \<Rightarrow> string \<Rightarrow> error + 'a" where
  "assertExists x message = (case x of None \<Rightarrow> Inl (Error message) | Some v \<Rightarrow> Inr v)"

text \<open>
  The constructor, statement by statement. The field initialiser of
  \<^verbatim>\<open>timeoutHandle\<close> runs first. The selector is computed by
  \<^verbatim>\<open>selector || element?.id ? `#${element?.id}` : ''\<close>, which JavaScript parses as
  \<^verbatim>\<open>(selector || element?.id) ? `#${element?.id}` : ''\<close>: a non-empty string is
  truthy, and the template prints an absent element's id as \<^verbatim>\<open>undefined\<close>.
  \<^verbatim>\<open>observe\<close> throws a \<^verbatim>\<open>TypeError\<close> when its first argument is \<^verbatim>\<open>null\<close>. On a
  failure the result carries the page and the timer table as they are when the
  exception leaves the constructor.
\<close>

definition constructor ::
  "RequestCallbackConstructorParams \<Rightarrow> (string \<Rightarrow> element option) \<Rightarrow>
   page \<times> (func, event) host \<Rightarrow> (error \<times> page \<times> (func, event) host) + state" where
  "constructor params querySelector w =
     (case w of (p0, h0) \<Rightarrow>
      (case setTimeout (Some Fnoop) [] 0 h0 of (th, h1) \<Rightarrow>
       (let eventDebounceTimeout = default_to 500 (p_eventDebounceTimeout params);
            callbackDebounceTimeout = default_to 1000 (p_callbackDebounceTimeout params);
            focusLoss = default_to False (p_notifyOnFocusLoss params);
            mouseLeave = default_to True (p_notifyOnMouseLeave params);
            interactiveEvents =
              default_to [MOUSEMOVE, ANY_KEY, CLICK, CHANGE] (p_interactiveEvents params);
            sel = (if (case p_selector params of None \<Rightarrow> False | Some x \<Rightarrow> x \<noteq> [])
                      \<or> (case p_element params of None \<Rightarrow> False | Some e \<Rightarrow> id_attr e \<noteq> [])
                   then ''#'' @ (case p_element params of
                                   None \<Rightarrow> ''undefined''
                                 | Some e \<Rightarrow> id_attr e)
                   else [])
        in if sel = [] then Inl (Error ''No selector or element id provided.'', p0, h1)
           else
            (case (case p_element params of
                     Some e \<Rightarrow> Inr e
                   | None \<Rightarrow> assertExists (querySelector sel) ''Object unexpectedly null'') of
               Inl err \<Rightarrow> Inl (err, p0, h1)
             | Inr el \<Rightarrow>
              (case debounce callbackDebounceTimeout (Function Fnotify) None of
                 Inl err \<Rightarrow> Inl (err, p0, h1)
               | Inr deb \<Rightarrow>
                (case debounce eventDebounceTimeout (Function Fpulse) None of
                   Inl err \<Rightarrow> Inl (err, p0, h1)
                 | Inr lis \<Rightarrow>
                  (let p1 = fold (\<lambda>k. addEventListener (Elem (node el)) (event_name k) Hlistener)
                              interactiveEvents p0;
                       p2 = (if focusLoss
                             then addEventListener Document ''focus'' HfocusHandler p1 else p1);
                       p3 = (if mouseLeave
                             then addEventListener (Elem (node el)) ''mouseleave'' Hnotify p2
                             else p2)
                   in (case parentNode el of
                         None \<Rightarrow>
                           Inl (TypeError ''observe: parameter 1 is not of type Node'', p3, h1)
                       | Some par \<Rightarrow>
                           Inr ((\<lparr>selector = sel, element = el,
                                  eventList = interactiveEvents,
                                  registeredCallbacks = [],
                                  notifyOnFocusLoss = focusLoss,
                                  notifyOnMouseLeave = mouseLeave,
                                  timeoutHandle = th,
                                  listener = lis, debounced = deb\<rparr>,
                                 p3\<lparr>observing := Some par\<rparr>), h1)))))))))"

text \<open>The methods. Each returns \<^verbatim>\<open>this\<close>; the returned state carries the watcher.\<close>

definition notify :: "event option \<Rightarrow> state \<Rightarrow> state" where
  "notify evt s =
     (case s of ((m, p), h) \<Rightarrow>
        ((m, p\<lparr>invoked := invoked p @ map (\<lambda>cb. (cb, evt)) (registeredCallbacks m)\<rparr>), h))"

definition cancelPending :: "state \<Rightarrow> state" where
  "cancelPending s = (case s of ((m, p), h) \<Rightarrow> ((m, p), clearTimeout (timeoutHandle m) h))"

definition focusHandler :: "event \<Rightarrow> state \<Rightarrow> state" where
  "focusHandler evt s =
     (case s of ((m, p), h) \<Rightarrow>
        if \<not> contains p (node (element m)) (ev_target evt)
        then notify None (cancelPending s) else s)"

definition register :: "callback \<Rightarrow> state \<Rightarrow> state" where
  "register f s =
     (case s of ((m, p), h) \<Rightarrow>
        if f \<notin> set (registeredCallbacks m)
        then ((m\<lparr>registeredCallbacks := registeredCallbacks m @ [f]\<rparr>, p), h) else s)"

definition call :: "event option \<Rightarrow> state \<Rightarrow> state" where
  "call evt s = notify evt (cancelPending s)"

definition release :: "state \<Rightarrow> state" where
  "release s =
     (case s of ((m, p), h) \<Rightarrow>
       (let p1 = p\<lparr>observing := None\<rparr>;
            p2 = fold (\<lambda>k. removeEventListener (Elem (node (element m))) (event_name k) Hlistener)
                   (eventList m) p1;
            p3 = (if notifyOnFocusLoss m
                  then removeEventListener Document ''focus'' HfocusHandler p2 else p2);
            p4 = (if notifyOnMouseLeave m
                  then removeEventListener (Elem (node (element m))) ''mouseleave'' Hnotify p3
                  else p3)
        in ((m, p4), h)))"

text \<open>
  The exported function: construct, then register one callback.
\<close>

definition requestNonInteractiveCallback ::
  "RequestCallbackConstructorParams \<Rightarrow> callback \<Rightarrow> (string \<Rightarrow> element option) \<Rightarrow>
   page \<times> (func, event) host \<Rightarrow> (error \<times> page \<times> (func, event) host) + state" where
  "requestNonInteractiveCallback params f querySelector w =
     (case constructor params querySelector w of
        Inl e \<Rightarrow> Inl e
      | Inr s \<Rightarrow> Inr (register f s))"

text \<open>
  Applying the deferred calls. \<open>arg0\<close> is the first parameter of a call with the given
  arguments (\<^verbatim>\<open>undefined\<close> when there is none). The local wrapper \<^verbatim>\<open>debounced\<close> wraps
  \<^verbatim>\<open>this.notify\<close> and nothing else, so \<open>apply_notify\<close>, which applies that one
  function, is the interpretation its leading call needs (the wrapper is trailing
  only, so the leading call never happens); \<open>pulse\<close> is the arrow function
  \<^verbatim>\<open>(evt) => { this.cancelPending(); this.timeoutHandle = debounced(); }\<close>.
\<close>

definition arg0 :: "event list \<Rightarrow> event option" where
  "arg0 args = (case args of [] \<Rightarrow> None | e # _ \<Rightarrow> Some e)"

definition apply_notify :: "func \<Rightarrow> event list \<Rightarrow> state \<Rightarrow> state" where
  "apply_notify g args s = (case g of Fnotify \<Rightarrow> notify (arg0 args) s | _ \<Rightarrow> s)"

definition pulse :: "state \<Rightarrow> state" where
  "pulse s =
     (case call_debounced apply_notify (debounced (this (cancelPending s))) [] (cancelPending s) of
        Inl e \<Rightarrow> cancelPending s
      | Inr (t, d', ((m', p'), h')) \<Rightarrow> ((m'\<lparr>timeoutHandle := t, debounced := d'\<rparr>, p'), h'))"

definition apply_fn :: "func \<Rightarrow> event list \<Rightarrow> state \<Rightarrow> state" where
  "apply_fn g args s =
     (case g of Fnotify \<Rightarrow> notify (arg0 args) s | Fpulse \<Rightarrow> pulse s | Fnoop \<Rightarrow> s)"

text \<open>
  What the host does with the watcher: it delivers an event to the listeners
  registered for the event's target and type, in registration order; it reports
  removed nodes to a connected observer, whose callback is \<open>cleanup\<close>; it lets time
  pass and runs due timers. The holder of the watcher calls its public methods.
\<close>

definition run_handler :: "handler \<Rightarrow> event \<Rightarrow> state \<Rightarrow> state" where
  "run_handler f evt s =
     (case f of
        Hlistener \<Rightarrow>
          (case call_debounced apply_fn (listener (this s)) [evt] s of
             Inl e \<Rightarrow> s
           | Inr (t, d', ((m', p'), h')) \<Rightarrow> ((m'\<lparr>listener := d'\<rparr>, p'), h'))
      | HfocusHandler \<Rightarrow> focusHandler evt s
      | Hnotify \<Rightarrow> notify (Some evt) s)"

definition dispatchEvent :: "event_target \<Rightarrow> event \<Rightarrow> state \<Rightarrow> state" where
  "dispatchEvent tgt evt s =
     fold (\<lambda>l. run_handler (snd (snd l)) evt)
       (filter (\<lambda>l. fst l = tgt \<and> fst (snd l) = ev_type evt) (listeners (page_of s))) s"

definition cleanup :: "node list list \<Rightarrow> state \<Rightarrow> state" where
  "cleanup mutationList s =
     fold (\<lambda>removedNodes. fold (\<lambda>el s'. if el = node (element (this s')) then release s' else s')
                            removedNodes)
       mutationList s"

datatype input =
    Elapse nat
  | TimerDue int
  | Dispatch event_target event
  | Mutations "node list list"
  | Register callback
  | Call "event option"
  | CancelPending
  | Release

fun step :: "input \<Rightarrow> state \<Rightarrow> state" where
  "step (Elapse dt) s = elapse dt s"
| "step (TimerDue t) s = runTimer apply_fn t s"
| "step (Dispatch tgt evt) s = dispatchEvent tgt evt s"
| "step (Mutations recs) s = (if observing (page_of s) = None then s else cleanup recs s)"
| "step (Register f) s = register f s"
| "step (Call evt) s = call evt s"
| "step CancelPending s = cancelPending s"
| "step Release s = release s"

definition run :: "input list \<Rightarrow> state \<Rightarrow> state" where
  "run ins s = fold step ins s"

text \<open>
  A fresh page has no listener, no connected observer and no pending timer, and its
  handle counter is positive. The reachable states are those a successful
  construction on a fresh page produces, and every state the host and the holder can
  drive the watcher to from there.
\<close>

definition fresh :: "page \<times> (func, event) host \<Rightarrow> bool" where
  "fresh w = (listeners (fst w) = [] \<and> observing (fst w) = None \<and>
              timers (snd w) = [] \<and> 0 < next_handle (snd w))"

inductive reachable :: "state \<Rightarrow> bool" where
  constructed: "fresh w \<Longrightarrow> constructor params querySelector w = Inr s \<Longrightarrow> reachable s"
| stepped: "reachable s \<Longrightarrow> reachable (step i s)"

section \<open>Invariants and auxiliary notions\<close>

text \<open>
  A wrapper is armed once its timer variable holds a handle: the host hands out
  positive handles only, so the variable never returns to its initial value.
\<close>

definition armed :: "'f wrapper \<times> (('f \<times> 'v list) list \<times> ('f, 'v) host) \<Rightarrow> bool" where
  "armed st = (timer (fst st) \<noteq> - 1 \<and> 0 < next_handle (snd (snd st)))"

text \<open>
  The timer invariant of the watcher: handles are fresh and distinct, both wrappers
  are the ones the constructor built (trailing only), and every pending callback-fire
  timer carries the handle stored in \<^verbatim>\<open>timeoutHandle\<close> and an empty argument list.
\<close>

definition timers_ok :: "state \<Rightarrow> bool" where
  "timers_ok s =
     (case s of ((m, p), h) \<Rightarrow>
        0 < next_handle h \<and>
        (\<forall>e \<in> set (timers h). fst e < next_handle h) \<and>
        distinct (map fst (timers h)) \<and>
        fn (debounced m) = Some Fnotify \<and> \<not> now (debounced m) \<and>
        fn (listener m) = Some Fpulse \<and> \<not> now (listener m) \<and>
        (\<forall>e \<in> set (timers h). fst (snd (snd e)) = Some Fnotify \<longrightarrow>
           fst e = timeoutHandle m \<and> snd (snd (snd e)) = []))"

text \<open>
  The listeners a watcher may hold, as the constructor registers them, and the
  listener invariant: no listener is registered twice and none is foreign.
\<close>

definition subscriptions :: "NonInteractiveCallbackManager \<Rightarrow> (event_target \<times> string \<times> handler) set" where
  "subscriptions m =
     (\<lambda>k. (Elem (node (element m)), event_name k, Hlistener)) ` set (eventList m) \<union>
     (if notifyOnFocusLoss m then {(Document, ''focus'', HfocusHandler)} else {}) \<union>
     (if notifyOnMouseLeave m then {(Elem (node (element m)), ''mouseleave'', Hnotify)} else {})"

definition listeners_ok :: "state \<Rightarrow> bool" where
  "listeners_ok s =
     (distinct (listeners (page_of s)) \<and> set (listeners (page_of s)) \<subseteq> subscriptions (this s))"

text \<open>
  The fields that never change after construction, and the part of the state that
  the timer paths leave alone.
\<close>

definition static :: "state \<Rightarrow> string \<times> element \<times> InteractiveEvents list \<times> bool \<times> bool" where
  "static s = (selector (this s), element (this s), eventList (this s),
               notifyOnFocusLoss (this s), notifyOnMouseLeave (this s))"

definition frame ::
  "state \<Rightarrow> (string \<times> element \<times> InteractiveEvents list \<times> bool \<times> bool) \<times> callback list \<times>
            (event_target \<times> string \<times> handler) list \<times> node option" where
  "frame s = (static s, registeredCallbacks (this s), listeners (page_of s), observing (page_of s))"

text \<open>
  The page after the constructor's three registration steps.
\<close>

definition subscribed_page :: "node \<Rightarrow> InteractiveEvents list \<Rightarrow> bool \<Rightarrow> bool \<Rightarrow> page \<Rightarrow> page" where
  "subscribed_page n evs fl ml p0 =
     (let p1 = fold (\<lambda>k. addEventListener (Elem n) (event_name k) Hlistener) evs p0;
          p2 = (if fl then addEventListener Document ''focus'' HfocusHandler p1 else p1)
      in (if ml then addEventListener (Elem n) ''mouseleave'' Hnotify p2 else p2))"

definition watcher_inv :: "state \<Rightarrow> bool" where
  "watcher_inv s = (timers_ok s \<and> listeners_ok s \<and> distinct (registeredCallbacks (this s)))"

text \<open>
  The pending callback-fire timers; the inputs that are events of the page or the
  passing of time; the inputs that happen without the holder (the former, and the
  running of a timer); and a watcher without listener and observer.
\<close>

definition idle_fire_timers :: "state \<Rightarrow> (int \<times> nat \<times> func option \<times> event list) list" where
  "idle_fire_timers s = filter (\<lambda>e. fst (snd (snd e)) = Some Fnotify) (timers (host_of s))"

fun event_or_time :: "input \<Rightarrow> bool" where
  "event_or_time (Dispatch tgt evt) = True"
| "event_or_time (Mutations recs) = True"
| "event_or_time (Elapse dt) = True"
| "event_or_time i = False"

fun automatic :: "input \<Rightarrow> bool" where
  "automatic (Dispatch tgt evt) = True"
| "automatic (Mutations recs) = True"
| "automatic (Elapse dt) = True"
| "automatic (TimerDue t) = True"
| "automatic i = False"

definition quiet :: "state \<Rightarrow> bool" where
  "quiet s = (listeners (page_of s) = [] \<and> observing (page_of s) = None)"

section \<open>Example data\<close>

text \<open>
  A page with one element \<^verbatim>\<open>#widget\<close> (node 1, child of node 0), the watcher
  constructed on it from the element handle with focus-loss notification on, and a
  few events. \<open>selector_params\<close> passes only a selector; \<open>widget_document\<close> is a
  document in which that selector resolves. \<open>detached\<close> is an element with an id
  and no parent.
\<close>

definition blank_page :: page where
  "blank_page = \<lparr>listeners = [], observing = None, contains = (\<lambda>a b. a = b), invoked = []\<rparr>"

definition blank_host :: "('f, 'v) host" where
  "blank_host = \<lparr>clock = 0, next_handle = 1, timers = []\<rparr>"

definition widget :: element where
  "widget = \<lparr>node = 1, id_attr = ''widget'', parentNode = Some 0\<rparr>"

definition widget_params :: RequestCallbackConstructorParams where
  "widget_params =
     \<lparr>p_selector = None, p_element = Some widget, p_notifyOnMouseLeave = None,
      p_notifyOnFocusLoss = Some True, p_callbackDebounceTimeout = None,
      p_eventDebounceTimeout = None, p_interactiveEvents = None\<rparr>"

definition no_document :: "string \<Rightarrow> element option" where
  "no_document q = None"

definition widget_watcher :: state where
  "widget_watcher =
     ((\<lparr>selector = ''#widget'', element = widget,
        eventList = [MOUSEMOVE, ANY_KEY, CLICK, CHANGE], registeredCallbacks = [],
        notifyOnFocusLoss = True, notifyOnMouseLeave = True, timeoutHandle = 1,
        listener = \<lparr>fn = Some Fpulse, now = False, delay = 500, timer = - 1\<rparr>,
        debounced = \<lparr>fn = Some Fnotify, now = False, delay = 1000, timer = - 1\<rparr>\<rparr>,
       \<lparr>listeners = [(Elem 1, ''mousemove'', Hlistener), (Elem 1, ''keydown'', Hlistener),
                     (Elem 1, ''click'', Hlistener), (Elem 1, ''change'', Hlistener),
                     (Document, ''focus'', HfocusHandler), (Elem 1, ''mouseleave'', Hnotify)],
        observing = Some 0, contains = (\<lambda>a b. a = b), invoked = []\<rparr>),
      \<lparr>clock = 0, next_handle = 2, timers = [(1, 0, Some Fnoop, [])]\<rparr>)"

definition click :: event where
  "click = \<lparr>ev_type = ''click'', ev_target = 1\<rparr>"

definition focus_elsewhere :: event where
  "focus_elsewhere = \<lparr>ev_type = ''focus'', ev_target = 9\<rparr>"

definition mouseleave :: event where
  "mouseleave = \<lparr>ev_type = ''mouseleave'', ev_target = 1\<rparr>"

definition selector_params :: RequestCallbackConstructorParams where
  "selector_params =
     \<lparr>p_selector = Some ''.widget'', p_element = None, p_notifyOnMouseLeave = None,
      p_notifyOnFocusLoss = None, p_callbackDebounceTimeout = None,
      p_eventDebounceTimeout = None, p_interactiveEvents = None\<rparr>"

definition widget_document :: "string \<Rightarrow> element option" where
  "widget_document q = (if q = ''.widget'' then Some widget else None)"

definition detached :: element where
  "detached = \<lparr>node = 1, id_attr = ''widget'', parentNode = None\<rparr>"

definition detached_params :: RequestCallbackConstructorParams where
  "detached_params =
     \<lparr>p_selector = None, p_element = Some detached, p_notifyOnMouseLeave = None,
      p_notifyOnFocusLoss = Some True, p_callbackDebounceTimeout = None,
      p_eventDebounceTimeout = None, p_interactiveEvents = None\<rparr>"

section \<open>Properties of the debounce primitive\<close>

lemma runTimer_record_call_next_handle:
  "next_handle (snd (runTimer record_call t (log, h))) = next_handle h"
  by (simp add: runTimer_def record_call_def clearTimeout_def split: option.splits prod.splits)

lemma wrapper_step_armed: "armed st \<Longrightarrow> armed (wrapper_step i st)"
proof (cases st)
  case (fields d log h)
  assume a: "armed st"
  show ?thesis
  proof (cases i)
    case (WCall args)
    with a fields show ?thesis
      by (auto simp: armed_def call_debounced_def setTimeout_def clearTimeout_def
          split: sum.splits prod.splits option.splits if_splits)
  next
    case (WElapse dt)
    with a fields show ?thesis by (simp add: armed_def elapse_def)
  next
    case (WTimer t)
    with a fields show ?thesis
      using runTimer_record_call_next_handle [of t log h]
      by (cases "runTimer record_call t (log, h)") (simp add: armed_def)
  qed
qed

lemma wrapper_run_armed: "armed st \<Longrightarrow> armed (wrapper_run ins st)"
  unfolding wrapper_run_def by (induction ins arbitrary: st) (simp_all add: wrapper_step_armed)

lemma wrapper_step_now: "now (fst (wrapper_step i st)) = now (fst st)"
  by (cases st; cases i)
     (auto simp: call_debounced_def setTimeout_def split: sum.splits prod.splits option.splits)

lemma wrapper_run_now: "now (fst (wrapper_run ins st)) = now (fst st)"
  unfolding wrapper_run_def by (induction ins arbitrary: st) (simp_all add: wrapper_step_now)

lemma call_without_leading:
  "timer (fst st) \<noteq> - 1 \<or> \<not> now (fst st) \<Longrightarrow> applied (wrapper_step (WCall a) st) = applied st"
  by (cases st)
     (auto simp: applied_def call_debounced_def setTimeout_def split: sum.splits prod.splits option.splits)

lemma first_call_leading:
  "0 < next_handle h \<Longrightarrow>
   wrapper_step (WCall a) (\<lparr>fn = Some g, now = True, delay = n, timer = - 1\<rparr>, (log, h)) =
     (\<lparr>fn = Some g, now = True, delay = n, timer = next_handle h\<rparr>,
      (log @ [(g, a)],
       h\<lparr>next_handle := next_handle h + 1,
         timers := filter (\<lambda>e. fst e \<noteq> - 1) (timers h) @ [(next_handle h, clock h + n, Some g, a)]\<rparr>))"
  by (simp add: call_debounced_def record_call_def setTimeout_def clearTimeout_def)

lemma call_debounced_quiet:
  "\<not> now d \<Longrightarrow> call_debounced invoke d args (m, h) =
     Inr (next_handle h, d\<lparr>timer := next_handle h\<rparr>,
          (m, h\<lparr>next_handle := next_handle h + 1,
                timers := filter (\<lambda>e. fst e \<noteq> timer d) (timers h) @
                          [(next_handle h, clock h + delay d, fn d, args)]\<rparr>))"
  by (simp add: call_debounced_def setTimeout_def clearTimeout_def)

lemma wrapper_step_fn_delay:
  "fn (fst (wrapper_step i st)) = fn (fst st) \<and> delay (fst (wrapper_step i st)) = delay (fst st)"
  by (cases st; cases i)
     (auto simp: call_debounced_def setTimeout_def split: sum.splits prod.splits option.splits)

lemma wrapper_run_fn_delay:
  "fn (fst (wrapper_run ins st)) = fn (fst st) \<and> delay (fst (wrapper_run ins st)) = delay (fst st)"
  unfolding wrapper_run_def by (induction ins arbitrary: st) (simp_all add: wrapper_step_fn_delay)

lemma call_reschedules:
  assumes "timer (fst st) \<noteq> - 1 \<or> \<not> now (fst st)"
  shows "pending (wrapper_step (WCall b) st) =
           filter (\<lambda>e. fst e \<noteq> timer (fst st)) (pending st) @
           [(next_handle (snd (snd st)), clock (snd (snd st)) + delay (fst st), fn (fst st), b)] \<and>
         timer (fst (wrapper_step (WCall b) st)) = next_handle (snd (snd st))"
proof -
  obtain d log h where st: "st = (d, (log, h))" by (metis prod.exhaust)
  have "call_debounced record_call d b (log, h) =
          Inr (next_handle h, d\<lparr>timer := next_handle h\<rparr>,
               (log, h\<lparr>next_handle := next_handle h + 1,
                      timers := filter (\<lambda>e. fst e \<noteq> timer d) (timers h) @
                                [(next_handle h, clock h + delay d, fn d, b)]\<rparr>))"
    using assms by (auto simp: st call_debounced_def setTimeout_def clearTimeout_def)
  then show ?thesis by (simp add: st pending_def)
qed

text \<open>
  C3, as amended. With the leading flag enabled the wrapper applies \<^verbatim>\<open>fn\<close>
  synchronously on its first call only, the call made while its timer variable still
  holds the initial \<open>-1\<close>, and schedules the trailing call as well. Every later call,
  whether or not an invocation is pending, applies nothing synchronously and only
  reschedules: it clears the timer whose handle the timer variable holds, schedules
  the trailing call with its own arguments after the delay, and stores the new
  handle. With the leading flag false or defaulted every call only reschedules in
  that way. Handles are positive.
\<close>

theorem debounce_leading_first_call_only:
  assumes "0 < next_handle h"
  shows "(debounce n (Boolean True) (Some g) = Inr d \<longrightarrow>
            applied (wrapper_step (WCall a) (d, (log, h))) = log @ [(g, a)] \<and>
            pending (wrapper_step (WCall a) (d, (log, h))) =
              filter (\<lambda>e. fst e \<noteq> - 1) (timers h) @ [(next_handle h, clock h + n, Some g, a)] \<and>
            (\<forall>ins b.
               applied (wrapper_step (WCall b)
                          (wrapper_run ins (wrapper_step (WCall a) (d, (log, h))))) =
                 applied (wrapper_run ins (wrapper_step (WCall a) (d, (log, h)))) \<and>
               pending (wrapper_step (WCall b)
                          (wrapper_run ins (wrapper_step (WCall a) (d, (log, h))))) =
                 filter (\<lambda>e. fst e \<noteq>
                               timer (fst (wrapper_run ins (wrapper_step (WCall a) (d, (log, h))))))
                   (pending (wrapper_run ins (wrapper_step (WCall a) (d, (log, h))))) @
                 [(next_handle (snd (snd (wrapper_run ins (wrapper_step (WCall a) (d, (log, h)))))),
                   clock (snd (snd (wrapper_run ins (wrapper_step (WCall a) (d, (log, h)))))) + n,
                   Some g, b)] \<and>
               timer (fst (wrapper_step (WCall b)
                             (wrapper_run ins (wrapper_step (WCall a) (d, (log, h)))))) =
                 next_handle (snd (snd (wrapper_run ins (wrapper_step (WCall a) (d, (log, h)))))))) \<and>
         (debounce n (Boolean False) f = Inr d' \<or> debounce n (Function g') f' = Inr d' \<longrightarrow>
            (\<forall>ins b.
               applied (wrapper_step (WCall b) (wrapper_run ins (d', (log, h)))) =
                 applied (wrapper_run ins (d', (log, h))) \<and>
               pending (wrapper_step (WCall b) (wrapper_run ins (d', (log, h)))) =
                 filter (\<lambda>e. fst e \<noteq> timer (fst (wrapper_run ins (d', (log, h)))))
                   (pending (wrapper_run ins (d', (log, h)))) @
                 [(next_handle (snd (snd (wrapper_run ins (d', (log, h))))),
                   clock (snd (snd (wrapper_run ins (d', (log, h))))) + n, fn d', b)] \<and>
               timer (fst (wrapper_step (WCall b) (wrapper_run ins (d', (log, h))))) =
                 next_handle (snd (snd (wrapper_run ins (d', (log, h)))))))"
proof (intro conjI impI allI)
  assume "debounce n (Boolean True) (Some g) = Inr d"
  then have d: "d = \<lparr>fn = Some g, now = True, delay = n, timer = - 1\<rparr>"
    by (simp add: debounce_def)
  have first: "wrapper_step (WCall a) (d, (log, h)) =
     (\<lparr>fn = Some g, now = True, delay = n, timer = next_handle h\<rparr>,
      (log @ [(g, a)],
       h\<lparr>next_handle := next_handle h + 1,
         timers := filter (\<lambda>e. fst e \<noteq> - 1) (timers h) @ [(next_handle h, clock h + n, Some g, a)]\<rparr>))"
    unfolding d by (rule first_call_leading [OF assms])
  show "applied (wrapper_step (WCall a) (d, (log, h))) = log @ [(g, a)]"
    unfolding first by (simp add: applied_def)
  show "pending (wrapper_step (WCall a) (d, (log, h))) =
          filter (\<lambda>e. fst e \<noteq> - 1) (timers h) @ [(next_handle h, clock h + n, Some g, a)]"
    unfolding first by (simp add: pending_def)
  fix ins b
  let ?st = "wrapper_run ins (wrapper_step (WCall a) (d, (log, h)))"
  have "armed (wrapper_step (WCall a) (d, (log, h)))"
    unfolding first using assms by (simp add: armed_def)
  then have "armed ?st" by (rule wrapper_run_armed)
  then have later: "timer (fst ?st) \<noteq> - 1 \<or> \<not> now (fst ?st)" by (simp add: armed_def)
  have same: "fn (fst ?st) = Some g \<and> delay (fst ?st) = n"
    unfolding first by (simp add: wrapper_run_fn_delay)
  show "applied (wrapper_step (WCall b) ?st) = applied ?st"
    by (rule call_without_leading [OF later])
  show "pending (wrapper_step (WCall b) ?st) =
          filter (\<lambda>e. fst e \<noteq> timer (fst ?st)) (pending ?st) @
          [(next_handle (snd (snd ?st)), clock (snd (snd ?st)) + n, Some g, b)]"
    using call_reschedules [OF later, of b] same by simp
  show "timer (fst (wrapper_step (WCall b) ?st)) = next_handle (snd (snd ?st))"
    using call_reschedules [OF later, of b] by simp
next
  fix ins b
  let ?st = "wrapper_run ins (d', (log, h))"
  assume "debounce n (Boolean False) f = Inr d' \<or> debounce n (Function g') f' = Inr d'"
  then have "\<not> now d'" and dl: "delay d' = n" by (auto simp: debounce_def)
  then have "\<not> now (fst ?st)" by (simp add: wrapper_run_now)
  then have later: "timer (fst ?st) \<noteq> - 1 \<or> \<not> now (fst ?st)" by simp
  have same: "fn (fst ?st) = fn d' \<and> delay (fst ?st) = n"
    using dl by (simp add: wrapper_run_fn_delay)
  show "applied (wrapper_step (WCall b) ?st) = applied ?st"
    by (rule call_without_leading [OF later])
  show "pending (wrapper_step (WCall b) ?st) =
          filter (\<lambda>e. fst e \<noteq> timer (fst ?st)) (pending ?st) @
          [(next_handle (snd (snd ?st)), clock (snd (snd ?st)) + n, fn d', b)]"
    using call_reschedules [OF later, of b] same by simp
  show "timer (fst (wrapper_step (WCall b) ?st)) = next_handle (snd (snd ?st))"
    using call_reschedules [OF later, of b] by simp
qed

lemmas wrapper_eval = wrapper_run_def call_debounced_def record_call_def setTimeout_def
  clearTimeout_def runTimer_def elapse_def applied_def pending_def blank_host_def debounce_def

text \<open>
  The theorem at a wrapper with delay 10. The first call applies \<^verbatim>\<open>fn\<close> and
  schedules timer 1. A second call five milliseconds later applies nothing, clears
  timer 1 and schedules timer 2; so does a second call made after timer 1 has run.
  A trailing-only wrapper applies nothing and schedules timer 1.
\<close>

theorem debounce_leading_first_call_only_witness:
  "0 < next_handle (blank_host :: (nat, nat) host) \<and>
   debounce 10 (Boolean True) (Some (0::nat)) = Inr \<lparr>fn = Some 0, now = True, delay = 10, timer = - 1\<rparr> \<and>
   debounce 10 (Function (0::nat)) None = Inr \<lparr>fn = Some 0, now = False, delay = 10, timer = - 1\<rparr> \<and>
   applied (wrapper_step (WCall [1::nat])
     (\<lparr>fn = Some (0::nat), now = True, delay = 10, timer = - 1\<rparr>, ([], blank_host))) = [(0, [1])] \<and>
   pending (wrapper_step (WCall [1::nat])
     (\<lparr>fn = Some (0::nat), now = True, delay = 10, timer = - 1\<rparr>, ([], blank_host))) =
     [(1, 10, Some 0, [1])] \<and>
   applied (wrapper_step (WCall [2])
     (wrapper_run [WElapse 5]
        (wrapper_step (WCall [1::nat])
           (\<lparr>fn = Some (0::nat), now = True, delay = 10, timer = - 1\<rparr>, ([], blank_host))))) =
     [(0, [1])] \<and>
   pending (wrapper_step (WCall [2])
     (wrapper_run [WElapse 5]
        (wrapper_step (WCall [1::nat])
           (\<lparr>fn = Some (0::nat), now = True, delay = 10, timer = - 1\<rparr>, ([], blank_host))))) =
     [(2, 15, Some 0, [2])] \<and>
   applied (wrapper_step (WCall [2])
     (wrapper_run [WElapse 10, WTimer 1]
        (wrapper_step (WCall [1::nat])
           (\<lparr>fn = Some (0::nat), now = True, delay = 10, timer = - 1\<rparr>, ([], blank_host))))) =
     [(0, [1]), (0, [1])] \<and>
   pending (wrapper_step (WCall [2])
     (wrapper_run [WElapse 10, WTimer 1]
        (wrapper_step (WCall [1::nat])
           (\<lparr>fn = Some (0::nat), now = True, delay = 10, timer = - 1\<rparr>, ([], blank_host))))) =
     [(2, 20, Some 0, [2])] \<and>
   applied (wrapper_step (WCall [2])
     (wrapper_run [WElapse 10]
        (\<lparr>fn = Some (0::nat), now = False, delay = 10, timer = - 1\<rparr>, ([], blank_host :: (nat, nat) host)))) = [] \<and>
   pending (wrapper_step (WCall [2])
     (wrapper_run [WElapse 10]
        (\<lparr>fn = Some (0::nat), now = False, delay = 10, timer = - 1\<rparr>, ([], blank_host :: (nat, nat) host)))) =
     [(1, 20, Some 0, [2])]"
proof -
  let ?d = "\<lparr>fn = Some (0::nat), now = True, delay = 10, timer = - 1\<rparr>"
  let ?t = "\<lparr>fn = Some (0::nat), now = False, delay = 10, timer = - 1\<rparr>"
  let ?first = "wrapper_step (WCall [1::nat]) (?d, ([], blank_host :: (nat, nat) host))"
  have p: "0 < next_handle (blank_host :: (nat, nat) host)" by (simp add: blank_host_def)
  have a: "debounce 10 (Boolean True) (Some (0::nat)) = Inr ?d" by (simp add: debounce_def)
  have b: "debounce 10 (Function (0::nat)) None = Inr ?t" by (simp add: debounce_def)
  note inst = debounce_leading_first_call_only [OF p, of 10 0 ?d "[1]" "[]" None ?t 0 None]
  have lead: "applied ?first = [(0, [1])] \<and>
      pending ?first = filter (\<lambda>e. fst e \<noteq> - 1) (timers (blank_host :: (nat, nat) host)) @
                       [(next_handle (blank_host :: (nat, nat) host),
                         clock (blank_host :: (nat, nat) host) + 10, Some 0, [1])] \<and>
      (\<forall>ins b.
         applied (wrapper_step (WCall b) (wrapper_run ins ?first)) = applied (wrapper_run ins ?first) \<and>
         pending (wrapper_step (WCall b) (wrapper_run ins ?first)) =
           filter (\<lambda>e. fst e \<noteq> timer (fst (wrapper_run ins ?first))) (pending (wrapper_run ins ?first)) @
           [(next_handle (snd (snd (wrapper_run ins ?first))),
             clock (snd (snd (wrapper_run ins ?first))) + 10, Some 0, b)] \<and>
         timer (fst (wrapper_step (WCall b) (wrapper_run ins ?first))) =
           next_handle (snd (snd (wrapper_run ins ?first))))"
    using inst a by simp
  have trail: "\<forall>ins b.
         applied (wrapper_step (WCall b) (wrapper_run ins (?t, ([], blank_host :: (nat, nat) host)))) =
           applied (wrapper_run ins (?t, ([], blank_host))) \<and>
         pending (wrapper_step (WCall b) (wrapper_run ins (?t, ([], blank_host :: (nat, nat) host)))) =
           filter (\<lambda>e. fst e \<noteq> timer (fst (wrapper_run ins (?t, ([], blank_host :: (nat, nat) host)))))
             (pending (wrapper_run ins (?t, ([], blank_host)))) @
           [(next_handle (snd (snd (wrapper_run ins (?t, ([], blank_host :: (nat, nat) host))))),
             clock (snd (snd (wrapper_run ins (?t, ([], blank_host :: (nat, nat) host))))) + 10, fn ?t, b)] \<and>
         timer (fst (wrapper_step (WCall b) (wrapper_run ins (?t, ([], blank_host :: (nat, nat) host))))) =
           next_handle (snd (snd (wrapper_run ins (?t, ([], blank_host :: (nat, nat) host)))))"
    using inst b by simp
  have s1: "wrapper_run [WElapse 5] ?first =
      (\<lparr>fn = Some 0, now = True, delay = 10, timer = 1\<rparr>,
       ([(0, [1])], \<lparr>clock = 5, next_handle = 2, timers = [(1, 10, Some 0, [1])]\<rparr>))"
    by (simp add: wrapper_eval)
  have s2: "wrapper_run [WElapse 10, WTimer 1] ?first =
      (\<lparr>fn = Some 0, now = True, delay = 10, timer = 1\<rparr>,
       ([(0, [1]), (0, [1])], \<lparr>clock = 10, next_handle = 2, timers = []\<rparr>))"
    by (simp add: wrapper_eval)
  have s3: "wrapper_run [WElapse 10] (?t, ([], blank_host :: (nat, nat) host)) =
      (?t, ([], \<lparr>clock = 10, next_handle = 1, timers = []\<rparr>))"
    by (simp add: wrapper_eval)
  have c0: "applied ?first = [(0, [1])]" "pending ?first = [(1, 10, Some 0, [1])]"
    using lead by (simp_all add: blank_host_def)
  have c1: "applied (wrapper_step (WCall [2]) (wrapper_run [WElapse 5] ?first)) = [(0, [1])]"
    "pending (wrapper_step (WCall [2]) (wrapper_run [WElapse 5] ?first)) = [(2, 15, Some 0, [2])]"
    using lead [THEN conjunct2, THEN conjunct2, rule_format, of "[2]" "[WElapse 5]"]
    unfolding s1 by (simp_all add: applied_def pending_def)
  have c2: "applied (wrapper_step (WCall [2]) (wrapper_run [WElapse 10, WTimer 1] ?first)) =
              [(0, [1]), (0, [1])]"
    "pending (wrapper_step (WCall [2]) (wrapper_run [WElapse 10, WTimer 1] ?first)) =
              [(2, 20, Some 0, [2])]"
    using lead [THEN conjunct2, THEN conjunct2, rule_format, of "[2]" "[WElapse 10, WTimer 1]"]
    unfolding s2 by (simp_all add: applied_def pending_def)
  have c3: "applied (wrapper_step (WCall [2])
              (wrapper_run [WElapse 10] (?t, ([], blank_host :: (nat, nat) host)))) = []"
    "pending (wrapper_step (WCall [2])
              (wrapper_run [WElapse 10] (?t, ([], blank_host :: (nat, nat) host)))) =
       [(1, 20, Some 0, [2])]"
    using trail [rule_format, of "[2]" "[WElapse 10]"]
    unfolding s3 by (simp_all add: applied_def pending_def)
  from p a b c0 c1 c2 c3 show ?thesis by blast
qed

text \<open>
  C3 as stated fails. After one call, ten milliseconds and the run of the trailing
  timer, no invocation is pending; the next call of the leading wrapper applies
  nothing synchronously and only schedules the trailing call.
\<close>

theorem debounce_leading_counterexample:
  "debounce 10 (Boolean True) (Some (0::nat)) =
     Inr \<lparr>fn = Some 0, now = True, delay = 10, timer = - 1\<rparr> \<and>
   pending (wrapper_run [WCall [1::nat], WElapse 10, WTimer 1]
     (\<lparr>fn = Some (0::nat), now = True, delay = 10, timer = - 1\<rparr>, ([], blank_host))) = [] \<and>
   applied (wrapper_run [WCall [1::nat], WElapse 10, WTimer 1]
     (\<lparr>fn = Some (0::nat), now = True, delay = 10, timer = - 1\<rparr>, ([], blank_host))) =
     [(0, [1]), (0, [1])] \<and>
   applied (wrapper_run [WCall [1::nat], WElapse 10, WTimer 1, WCall [2]]
     (\<lparr>fn = Some (0::nat), now = True, delay = 10, timer = - 1\<rparr>, ([], blank_host))) =
     [(0, [1]), (0, [1])] \<and>
   pending (wrapper_run [WCall [1::nat], WElapse 10, WTimer 1, WCall [2]]
     (\<lparr>fn = Some (0::nat), now = True, delay = 10, timer = - 1\<rparr>, ([], blank_host))) =
     [(2, 20, Some 0, [2])]"
  by (simp add: wrapper_eval)

section \<open>Invariants of the watcher\<close>

subsection \<open>Timers\<close>

lemma timers_ok_notify: "timers_ok s \<Longrightarrow> timers_ok (notify evt s)"
  by (auto simp: timers_ok_def notify_def split: prod.splits)

lemma timers_ok_cancelPending: "timers_ok s \<Longrightarrow> timers_ok (cancelPending s)"
  by (auto simp: timers_ok_def cancelPending_def clearTimeout_def distinct_map_filter split: prod.splits)

lemma cancelPending_no_idle:
  "timers_ok s \<Longrightarrow> \<forall>e \<in> set (timers (host_of (cancelPending s))). fst (snd (snd e)) \<noteq> Some Fnotify"
  by (auto simp: timers_ok_def cancelPending_def clearTimeout_def host_of_def split: prod.splits)

lemma timers_ok_pulse: "timers_ok s \<Longrightarrow> timers_ok (pulse s)"
proof -
  assume a: "timers_ok s"
  obtain m p h where s: "cancelPending s = ((m, p), h)" by (metis prod.exhaust)
  have ok: "timers_ok ((m, p), h)" using timers_ok_cancelPending [OF a] s by simp
  have none: "\<forall>e \<in> set (timers h). fst (snd (snd e)) \<noteq> Some Fnotify"
    using cancelPending_no_idle [OF a] s by (simp add: host_of_def)
  show ?thesis
    using ok none unfolding pulse_def s
    by (auto simp: timers_ok_def this_def call_debounced_def setTimeout_def clearTimeout_def
        distinct_map_filter split: prod.splits)
qed

lemma timers_ok_apply_fn: "timers_ok s \<Longrightarrow> timers_ok (apply_fn g args s)"
  by (cases g) (simp_all add: apply_fn_def timers_ok_notify timers_ok_pulse)

lemma timers_ok_clear: "timers_ok ((m, p), h) \<Longrightarrow> timers_ok ((m, p), clearTimeout t h)"
  by (auto simp: timers_ok_def clearTimeout_def distinct_map_filter)

lemma timers_ok_runTimer: "timers_ok s \<Longrightarrow> timers_ok (runTimer apply_fn t s)"
proof -
  assume a: "timers_ok s"
  obtain m p h where s: "s = ((m, p), h)" by (metis prod.exhaust)
  show ?thesis
    using a timers_ok_clear [of m p h t] timers_ok_apply_fn
    unfolding s runTimer_def
    by (auto split: option.splits prod.splits)
qed

lemma timers_ok_listener:
  "timers_ok s \<Longrightarrow> timers_ok (run_handler Hlistener evt s)"
proof -
  assume a: "timers_ok s"
  obtain m p h where s: "s = ((m, p), h)" by (metis prod.exhaust)
  show ?thesis
    using a unfolding s run_handler_def
    by (auto simp: timers_ok_def this_def call_debounced_def setTimeout_def clearTimeout_def
        distinct_map_filter split: prod.splits)
qed

lemma timers_ok_focusHandler: "timers_ok s \<Longrightarrow> timers_ok (focusHandler evt s)"
  by (cases s) (auto simp: focusHandler_def timers_ok_notify timers_ok_cancelPending split: prod.splits)

lemma timers_ok_run_handler: "timers_ok s \<Longrightarrow> timers_ok (run_handler f evt s)"
  by (cases f) (simp_all add: timers_ok_listener, simp_all add: run_handler_def timers_ok_focusHandler timers_ok_notify)

lemma timers_ok_fold_handlers:
  "timers_ok s \<Longrightarrow> timers_ok (fold (\<lambda>l. run_handler (snd (snd l)) evt) ls s)"
  by (induction ls arbitrary: s) (simp_all add: timers_ok_run_handler)

lemma timers_ok_dispatchEvent: "timers_ok s \<Longrightarrow> timers_ok (dispatchEvent tgt evt s)"
  by (simp add: dispatchEvent_def timers_ok_fold_handlers)

lemma timers_ok_release: "timers_ok s \<Longrightarrow> timers_ok (release s)"
  by (auto simp: timers_ok_def release_def Let_def split: prod.splits)

lemma timers_ok_removed:
  "timers_ok s \<Longrightarrow> timers_ok (fold (\<lambda>el s'. if el = node (element (this s')) then release s' else s') ns s)"
  by (induction ns arbitrary: s) (simp_all add: timers_ok_release)

lemma timers_ok_cleanup: "timers_ok s \<Longrightarrow> timers_ok (cleanup recs s)"
  unfolding cleanup_def by (induction recs arbitrary: s) (simp_all add: timers_ok_removed)

lemma timers_ok_register: "timers_ok s \<Longrightarrow> timers_ok (register f s)"
  by (auto simp: timers_ok_def register_def split: prod.splits)

lemma timers_ok_elapse: "timers_ok s \<Longrightarrow> timers_ok (elapse dt s)"
  by (auto simp: timers_ok_def elapse_def split: prod.splits)

lemma timers_ok_constructor:
  "fresh w \<Longrightarrow> constructor params querySelector w = Inr s \<Longrightarrow> timers_ok s"
  by (cases w)
     (auto simp: fresh_def constructor_def Let_def setTimeout_def debounce_def timers_ok_def
        split: if_splits sum.splits option.splits)

lemma pulse_eq:
  assumes "timers_ok ((m, p), h)"
  shows "pulse ((m, p), h) =
     ((m\<lparr>timeoutHandle := next_handle h, debounced := (debounced m)\<lparr>timer := next_handle h\<rparr>\<rparr>, p),
      h\<lparr>next_handle := next_handle h + 1,
        timers := filter (\<lambda>e. fst e \<noteq> timer (debounced m))
                    (filter (\<lambda>e. fst e \<noteq> timeoutHandle m) (timers h)) @
                  [(next_handle h, clock h + delay (debounced m), Some Fnotify, [])]\<rparr>)"
proof -
  have q: "\<not> now (debounced m)" and f: "fn (debounced m) = Some Fnotify"
    using assms by (simp_all add: timers_ok_def)
  have c: "cancelPending ((m, p), h) = ((m, p), clearTimeout (timeoutHandle m) h)"
    by (simp add: cancelPending_def)
  show ?thesis
    unfolding pulse_def c this_def
    by (simp add: call_debounced_quiet [OF q] f clearTimeout_def)
qed

lemma listener_eq:
  assumes "timers_ok ((m, p), h)"
  shows "run_handler Hlistener evt ((m, p), h) =
     ((m\<lparr>listener := (listener m)\<lparr>timer := next_handle h\<rparr>\<rparr>, p),
      h\<lparr>next_handle := next_handle h + 1,
        timers := filter (\<lambda>e. fst e \<noteq> timer (listener m)) (timers h) @
                  [(next_handle h, clock h + delay (listener m), Some Fpulse, [evt])]\<rparr>)"
proof -
  have q: "\<not> now (listener m)" and f: "fn (listener m) = Some Fpulse"
    using assms by (simp_all add: timers_ok_def)
  show ?thesis
    unfolding run_handler_def this_def
    by (simp add: call_debounced_quiet [OF q] f)
qed

subsection \<open>What each operation leaves alone\<close>

lemma notify_frame:
  "this (notify evt s) = this s" "host_of (notify evt s) = host_of s"
  "invoked (page_of (notify evt s)) =
     invoked (page_of s) @ map (\<lambda>cb. (cb, evt)) (registeredCallbacks (this s))"
  by (auto simp: notify_def this_def host_of_def page_of_def split: prod.splits)

lemma cancelPending_frame:
  "this (cancelPending s) = this s" "page_of (cancelPending s) = page_of s"
  "timers (host_of (cancelPending s)) =
     filter (\<lambda>e. fst e \<noteq> timeoutHandle (this s)) (timers (host_of s))"
  by (auto simp: cancelPending_def this_def host_of_def page_of_def clearTimeout_def split: prod.splits)

lemma frame_notify: "frame (notify evt s) = frame s"
  by (cases s) (auto simp: frame_def static_def notify_def this_def page_of_def)

lemma frame_cancelPending: "frame (cancelPending s) = frame s"
  by (cases s) (auto simp: frame_def static_def cancelPending_def this_def page_of_def)

lemma frame_pulse: "timers_ok s \<Longrightarrow> frame (pulse s) = frame s"
proof -
  assume a: "timers_ok s"
  obtain m p h where s: "s = ((m, p), h)" by (metis prod.exhaust)
  show ?thesis using a unfolding s
    by (simp add: pulse_eq frame_def static_def this_def page_of_def)
qed

lemma frame_apply_fn: "timers_ok s \<Longrightarrow> frame (apply_fn g args s) = frame s"
  by (cases g) (simp_all add: apply_fn_def frame_notify frame_pulse)

lemma frame_runTimer: "timers_ok s \<Longrightarrow> frame (runTimer apply_fn t s) = frame s"
proof -
  assume a: "timers_ok s"
  obtain m p h where s: "s = ((m, p), h)" by (metis prod.exhaust)
  have c: "frame ((m, p), clearTimeout t h) = frame ((m, p), h)"
    by (simp add: frame_def static_def this_def page_of_def)
  have k: "timers_ok ((m, p), clearTimeout t h)" using a s timers_ok_clear by simp
  show ?thesis
    unfolding s runTimer_def using c frame_apply_fn [OF k]
    by (auto split: option.splits)
qed

lemma frame_listener: "timers_ok s \<Longrightarrow> frame (run_handler Hlistener evt s) = frame s"
proof -
  assume a: "timers_ok s"
  obtain m p h where s: "s = ((m, p), h)" by (metis prod.exhaust)
  show ?thesis using a unfolding s
    by (simp add: listener_eq frame_def static_def this_def page_of_def)
qed

lemma frame_focusHandler: "frame (focusHandler evt s) = frame s"
  by (cases s) (auto simp: focusHandler_def frame_notify frame_cancelPending)

lemma frame_run_handler: "timers_ok s \<Longrightarrow> frame (run_handler f evt s) = frame s"
  by (cases f) (simp_all add: frame_listener, simp_all add: run_handler_def frame_focusHandler frame_notify)

lemma frame_fold_handlers:
  "timers_ok s \<Longrightarrow> frame (fold (\<lambda>l. run_handler (snd (snd l)) evt) ls s) = frame s"
  by (induction ls arbitrary: s) (simp_all add: timers_ok_run_handler frame_run_handler)

lemma frame_dispatchEvent: "timers_ok s \<Longrightarrow> frame (dispatchEvent tgt evt s) = frame s"
  by (simp add: dispatchEvent_def frame_fold_handlers)

lemma frame_elapse: "frame (elapse dt s) = frame s"
  by (cases s) (auto simp: frame_def static_def elapse_def this_def page_of_def)

lemma static_register: "static (register f s) = static s"
  by (cases s) (auto simp: static_def register_def this_def split: if_splits)

lemma page_register: "page_of (register f s) = page_of s"
  by (cases s) (auto simp: register_def page_of_def)

lemma callbacks_register:
  "registeredCallbacks (this (register f s)) =
     (if f \<in> set (registeredCallbacks (this s)) then registeredCallbacks (this s)
      else registeredCallbacks (this s) @ [f])"
  by (cases s) (auto simp: register_def this_def)

subsection \<open>Release\<close>

lemma fold_remove_listeners:
  "listeners (fold (\<lambda>k. removeEventListener tgt (event_name k) f) ks p) =
     filter (\<lambda>l. l \<notin> (\<lambda>k. (tgt, event_name k, f)) ` set ks) (listeners p)"
  by (induction ks arbitrary: p) (auto simp: removeEventListener_def intro: filter_cong)

lemma fold_remove_others:
  "observing (fold (\<lambda>k. removeEventListener tgt (event_name k) f) ks p) = observing p"
  "contains (fold (\<lambda>k. removeEventListener tgt (event_name k) f) ks p) = contains p"
  "invoked (fold (\<lambda>k. removeEventListener tgt (event_name k) f) ks p) = invoked p"
  by (induction ks arbitrary: p) (auto simp: removeEventListener_def)

lemma release_this: "this (release s) = this s"
  by (cases s) (auto simp: release_def this_def Let_def)

lemma release_host: "host_of (release s) = host_of s"
  by (cases s) (auto simp: release_def host_of_def Let_def)

lemma release_observing: "observing (page_of (release s)) = None"
  by (cases s) (auto simp: release_def page_of_def Let_def removeEventListener_def fold_remove_others)

lemma release_invoked: "invoked (page_of (release s)) = invoked (page_of s)"
  by (cases s) (auto simp: release_def page_of_def Let_def removeEventListener_def fold_remove_others)

lemma release_contains: "contains (page_of (release s)) = contains (page_of s)"
  by (cases s) (auto simp: release_def page_of_def Let_def removeEventListener_def fold_remove_others)

lemma release_listeners:
  "listeners (page_of (release s)) =
     filter (\<lambda>l. l \<notin> subscriptions (this s)) (listeners (page_of s))"
  by (cases s)
     (auto simp: release_def page_of_def this_def Let_def removeEventListener_def
        fold_remove_listeners subscriptions_def intro: filter_cong)

lemma release_unsubscribes:
  "listeners_ok s \<Longrightarrow> listeners (page_of (release s)) = []"
  by (auto simp: release_listeners listeners_ok_def filter_empty_conv)

lemma release_idem: "release (release s) = release s"
proof -
  have l: "listeners (page_of (release (release s))) = listeners (page_of (release s))"
    by (simp add: release_listeners release_this)
  have p: "page_of (release (release s)) = page_of (release s)"
    by (rule page.equality)
       (simp_all add: l release_observing release_invoked release_contains)
  have t: "this (release (release s)) = this (release s)" by (simp add: release_this)
  have h: "host_of (release (release s)) = host_of (release s)" by (simp add: release_host)
  show ?thesis
    using p t h by (simp add: page_of_def this_def host_of_def prod_eq_iff)
qed

subsection \<open>Construction\<close>

lemma fold_add_set:
  "set (listeners (fold (\<lambda>k. addEventListener tgt (event_name k) f) ks p)) =
     set (listeners p) \<union> (\<lambda>k. (tgt, event_name k, f)) ` set ks"
  by (induction ks arbitrary: p) (auto simp: addEventListener_def)

lemma fold_add_distinct:
  "distinct (listeners p) \<Longrightarrow>
   distinct (listeners (fold (\<lambda>k. addEventListener tgt (event_name k) f) ks p))"
  by (induction ks arbitrary: p) (auto simp: addEventListener_def)

lemma add_set:
  "set (listeners (addEventListener tgt ty f p)) = insert (tgt, ty, f) (set (listeners p))"
  by (auto simp: addEventListener_def)

lemma add_distinct:
  "distinct (listeners p) \<Longrightarrow> distinct (listeners (addEventListener tgt ty f p))"
  by (auto simp: addEventListener_def)

lemma subscribed_page_set:
  "set (listeners (subscribed_page n evs fl ml p0)) =
     set (listeners p0) \<union> (\<lambda>k. (Elem n, event_name k, Hlistener)) ` set evs \<union>
     (if fl then {(Document, ''focus'', HfocusHandler)} else {}) \<union>
     (if ml then {(Elem n, ''mouseleave'', Hnotify)} else {})"
  by (simp add: subscribed_page_def Let_def add_set fold_add_set)

lemma subscribed_page_distinct:
  "distinct (listeners p0) \<Longrightarrow> distinct (listeners (subscribed_page n evs fl ml p0))"
  by (simp add: subscribed_page_def Let_def add_distinct fold_add_distinct)

lemma constructor_Inr:
  assumes "constructor params querySelector (p0, h0) = Inr s"
  shows "\<exists>el par. parentNode el = Some par \<and>
           static s = (selector (this s), el,
                       default_to [MOUSEMOVE, ANY_KEY, CLICK, CHANGE] (p_interactiveEvents params),
                       default_to False (p_notifyOnFocusLoss params),
                       default_to True (p_notifyOnMouseLeave params)) \<and>
           registeredCallbacks (this s) = [] \<and>
           page_of s = (subscribed_page (node el)
                          (default_to [MOUSEMOVE, ANY_KEY, CLICK, CHANGE] (p_interactiveEvents params))
                          (default_to False (p_notifyOnFocusLoss params))
                          (default_to True (p_notifyOnMouseLeave params)) p0)\<lparr>observing := Some par\<rparr>"
  using assms
  by (auto simp: constructor_def Let_def setTimeout_def debounce_def subscribed_page_def
      static_def this_def page_of_def
      split: if_splits sum.splits option.splits)

lemma listeners_ok_constructor:
  assumes "fresh w" and "constructor params querySelector w = Inr s"
  shows "listeners_ok s \<and> registeredCallbacks (this s) = []"
proof -
  obtain p0 h0 where w: "w = (p0, h0)" by (cases w)
  have e: "listeners p0 = []" using assms(1) w by (simp add: fresh_def)
  from constructor_Inr [OF assms(2) [unfolded w]]
  obtain el par where st: "static s = (selector (this s), el,
                       default_to [MOUSEMOVE, ANY_KEY, CLICK, CHANGE] (p_interactiveEvents params),
                       default_to False (p_notifyOnFocusLoss params),
                       default_to True (p_notifyOnMouseLeave params))"
    and cb: "registeredCallbacks (this s) = []"
    and pg: "page_of s = (subscribed_page (node el)
                          (default_to [MOUSEMOVE, ANY_KEY, CLICK, CHANGE] (p_interactiveEvents params))
                          (default_to False (p_notifyOnFocusLoss params))
                          (default_to True (p_notifyOnMouseLeave params)) p0)\<lparr>observing := Some par\<rparr>"
    by blast
  have f: "element (this s) = el"
    "eventList (this s) = default_to [MOUSEMOVE, ANY_KEY, CLICK, CHANGE] (p_interactiveEvents params)"
    "notifyOnFocusLoss (this s) = default_to False (p_notifyOnFocusLoss params)"
    "notifyOnMouseLeave (this s) = default_to True (p_notifyOnMouseLeave params)"
    using st by (simp_all add: static_def)
  have "distinct (listeners (page_of s))"
    unfolding pg using e by (simp add: subscribed_page_distinct)
  moreover have "set (listeners (page_of s)) \<subseteq> subscriptions (this s)"
    unfolding pg subscriptions_def f using e by (simp add: subscribed_page_set)
  ultimately show ?thesis using cb by (simp add: listeners_ok_def)
qed

subsection \<open>Every reachable state satisfies the invariant\<close>

lemma frame_listeners_ok: "frame s' = frame s \<Longrightarrow> listeners_ok s \<Longrightarrow> listeners_ok s'"
  by (auto simp: frame_def static_def listeners_ok_def subscriptions_def)

lemma frame_callbacks: "frame s' = frame s \<Longrightarrow> registeredCallbacks (this s') = registeredCallbacks (this s)"
  by (simp add: frame_def)

lemma listeners_ok_release: "listeners_ok s \<Longrightarrow> listeners_ok (release s)"
  by (simp add: listeners_ok_def release_unsubscribes [unfolded listeners_ok_def])

lemma inv_release: "watcher_inv s \<Longrightarrow> watcher_inv (release s)"
  by (simp add: watcher_inv_def timers_ok_release listeners_ok_release release_this)

lemma inv_removed:
  "watcher_inv s \<Longrightarrow> watcher_inv (fold (\<lambda>el s'. if el = node (element (this s')) then release s' else s') ns s)"
  by (induction ns arbitrary: s) (simp_all add: inv_release)

lemma inv_cleanup: "watcher_inv s \<Longrightarrow> watcher_inv (cleanup recs s)"
  unfolding cleanup_def by (induction recs arbitrary: s) (simp_all add: inv_removed)

lemma inv_frame: "watcher_inv s \<Longrightarrow> timers_ok s' \<Longrightarrow> frame s' = frame s \<Longrightarrow> watcher_inv s'"
  using frame_listeners_ok [of s' s] frame_callbacks [of s' s] by (simp add: watcher_inv_def)

lemma subscriptions_static: "static s' = static s \<Longrightarrow> subscriptions (this s') = subscriptions (this s)"
  by (simp add: static_def subscriptions_def)

lemma inv_register: "watcher_inv s \<Longrightarrow> watcher_inv (register f s)"
  using subscriptions_static [OF static_register, of f s]
  by (simp add: watcher_inv_def timers_ok_register callbacks_register listeners_ok_def page_register)

lemma inv_step: "watcher_inv s \<Longrightarrow> watcher_inv (step i s)"
proof -
  assume a: "watcher_inv s"
  then have t: "timers_ok s" by (simp add: watcher_inv_def)
  show ?thesis
  proof (cases i)
    case (Elapse dt)
    show ?thesis unfolding Elapse step.simps
      by (rule inv_frame [OF a timers_ok_elapse [OF t] frame_elapse])
  next
    case (TimerDue x)
    show ?thesis unfolding TimerDue step.simps
      by (rule inv_frame [OF a timers_ok_runTimer [OF t] frame_runTimer [OF t]])
  next
    case (Dispatch tgt evt)
    show ?thesis unfolding Dispatch step.simps
      by (rule inv_frame [OF a timers_ok_dispatchEvent [OF t] frame_dispatchEvent [OF t]])
  next
    case (Mutations recs)
    show ?thesis using a Mutations by (simp add: inv_cleanup)
  next
    case (Register f)
    show ?thesis using a Register by (simp add: inv_register)
  next
    case (Call evt)
    have "frame (call evt s) = frame s" by (simp add: call_def frame_notify frame_cancelPending)
    moreover have "timers_ok (call evt s)"
      using t by (simp add: call_def timers_ok_notify timers_ok_cancelPending)
    ultimately show ?thesis using a Call inv_frame by simp
  next
    case CancelPending
    show ?thesis unfolding CancelPending step.simps
      by (rule inv_frame [OF a timers_ok_cancelPending [OF t] frame_cancelPending])
  next
    case Release
    show ?thesis using a Release by (simp add: inv_release)
  qed
qed

lemma reachable_inv: "reachable s \<Longrightarrow> watcher_inv s"
proof (induction rule: reachable.induct)
  case (constructed w params querySelector s)
  then show ?case
    using listeners_ok_constructor [of w params querySelector s] timers_ok_constructor [of w params querySelector s]
    by (simp add: watcher_inv_def)
next
  case (stepped s i)
  then show ?case by (simp add: inv_step)
qed

lemma reachable_run: "reachable s \<Longrightarrow> reachable (run ins s)"
  unfolding run_def by (induction ins arbitrary: s) (simp_all add: reachable.stepped)

subsection \<open>The example watcher\<close>

lemmas eval_defs = run_def dispatchEvent_def run_handler_def call_debounced_def setTimeout_def
  clearTimeout_def runTimer_def elapse_def apply_fn_def pulse_def cancelPending_def notify_def
  register_def release_def call_def this_def page_of_def host_of_def arg0_def
  removeEventListener_def addEventListener_def cleanup_def focusHandler_def apply_notify_def
  widget_watcher_def widget_def click_def

lemma widget_watcher_constructed:
  "constructor widget_params no_document (blank_page, blank_host) = Inr widget_watcher"
  by (simp add: constructor_def widget_params_def blank_page_def blank_host_def widget_def
      widget_watcher_def setTimeout_def default_to_def debounce_def addEventListener_def Let_def)

lemma widget_watcher_reachable: "reachable widget_watcher"
  by (rule reachable.constructed [OF _ widget_watcher_constructed])
     (simp add: fresh_def blank_page_def blank_host_def)

section \<open>Construction: the target and the failures\<close>

lemma constructor_selector_only:
  "p_element params = None \<Longrightarrow>
   constructor params querySelector w = constructor params (\<lambda>q. querySelector ''#undefined'') w"
  by (cases w) (simp add: constructor_def Let_def split: prod.splits)

lemma constructor_element_wins:
  "p_element params = Some e \<Longrightarrow> constructor params querySelector w = Inr s \<Longrightarrow>
   element (this s) = e"
  by (cases w)
     (auto simp: constructor_def Let_def setTimeout_def debounce_def this_def
        split: if_splits option.splits)

text \<open>
  C1 says that a construction from a selector alone resolves the target by querying
  the document with that selector. The code does not: without an element the query
  string is always \<^verbatim>\<open>#undefined\<close> (\<open>constructor_selector_only\<close>). Here the
  document resolves the supplied selector \<^verbatim>\<open>.widget\<close> to an element and has no
  element with the id \<^verbatim>\<open>undefined\<close>: construction throws
  \<^verbatim>\<open>Object unexpectedly null\<close>. The second half of C1 holds: a supplied element
  is the target (\<open>constructor_element_wins\<close>).
\<close>

theorem selector_only_construction_ignores_selector:
  "widget_document ''.widget'' = Some widget \<and>
   constructor selector_params widget_document (blank_page, blank_host) =
     Inl (Error ''Object unexpectedly null'', blank_page,
          \<lparr>clock = 0, next_handle = 2, timers = [(1, 0, Some Fnoop, [])]\<rparr>)"
  by (simp add: constructor_def selector_params_def widget_document_def blank_host_def
      setTimeout_def default_to_def assertExists_def Let_def)

lemma constructor_ConfigurationError:
  assumes "p_selector params = None \<or> p_selector params = Some []"
    and "p_element params = None \<or> (\<exists>e. p_element params = Some e \<and> id_attr e = [])"
  shows "constructor params querySelector (p0, h0) =
           Inl (Error ''No selector or element id provided.'', p0,
                snd (setTimeout (Some Fnoop) [] 0 h0))"
  using assms by (auto simp: constructor_def Let_def setTimeout_def)

lemma constructor_Error_before_subscribing:
  "constructor params querySelector (p0, h0) = Inl (Error msg, p, h) \<Longrightarrow> p = p0"
  by (auto simp: constructor_def Let_def setTimeout_def debounce_def assertExists_def
      split: if_splits option.splits)

text \<open>
  C9 says that every construction failure leaves nothing subscribed. The two errors
  the constructor throws itself do (\<open>constructor_Error_before_subscribing\<close>), and
  the first of them is thrown when neither a non-empty selector nor an element with
  an id is supplied (\<open>constructor_ConfigurationError\<close>). The last statement of the
  constructor, \<^verbatim>\<open>observe(this.element?.parentNode as Node, ...)\<close>, runs after the
  listeners are registered and throws for a target without parent. Here the target
  is an element handle with an id and no parent: the error leaves the constructor
  with six listeners registered, one of them on the document.
\<close>

theorem detached_target_leaves_listeners:
  "constructor detached_params no_document (blank_page, blank_host) =
     Inl (TypeError ''observe: parameter 1 is not of type Node'',
          \<lparr>listeners = [(Elem 1, ''mousemove'', Hlistener), (Elem 1, ''keydown'', Hlistener),
                        (Elem 1, ''click'', Hlistener), (Elem 1, ''change'', Hlistener),
                        (Document, ''focus'', HfocusHandler), (Elem 1, ''mouseleave'', Hnotify)],
           observing = None, contains = (\<lambda>a b. a = b), invoked = []\<rparr>,
          \<lparr>clock = 0, next_handle = 2, timers = [(1, 0, Some Fnoop, [])]\<rparr>)"
  by (simp add: constructor_def detached_params_def detached_def blank_page_def blank_host_def
      setTimeout_def default_to_def debounce_def addEventListener_def Let_def)

section \<open>Registration\<close>

lemma count_list_distinct: "distinct xs \<Longrightarrow> x \<in> set xs \<Longrightarrow> count_list xs x = 1"
  by (induction xs) auto

lemma fold_register_frame:
  "page_of (fold register fs s) = page_of s \<and> host_of (fold register fs s) = host_of s \<and>
   static (fold register fs s) = static s"
proof (induction fs arbitrary: s)
  case Nil
  show ?case by simp
next
  case (Cons f fs)
  have "page_of (register f s) = page_of s" by (rule page_register)
  moreover have "host_of (register f s) = host_of s"
    by (cases s) (auto simp: register_def host_of_def)
  moreover have "static (register f s) = static s" by (rule static_register)
  ultimately show ?case using Cons [of "register f s"] by simp
qed

lemma first_occurrences_snoc:
  "rev (remdups (rev (xs @ [f]))) =
     (if f \<in> set (rev (remdups (rev xs))) then rev (remdups (rev xs))
      else rev (remdups (rev xs)) @ [f])"
  by simp

lemma fold_register_callbacks:
  "distinct (registeredCallbacks (this s)) \<Longrightarrow>
   registeredCallbacks (this (fold register fs s)) =
     rev (remdups (rev (registeredCallbacks (this s) @ fs)))"
proof (induction fs rule: rev_induct)
  case Nil
  then show ?case by (simp add: distinct_remdups_id)
next
  case (snoc f fs)
  have "registeredCallbacks (this (fold register (fs @ [f]) s)) =
          (if f \<in> set (registeredCallbacks (this (fold register fs s)))
           then registeredCallbacks (this (fold register fs s))
           else registeredCallbacks (this (fold register fs s)) @ [f])"
    by (simp add: callbacks_register)
  also have "\<dots> = rev (remdups (rev ((registeredCallbacks (this s) @ fs) @ [f])))"
    unfolding snoc.IH [OF snoc.prems] first_occurrences_snoc by simp
  finally show ?case by simp
qed

lemma register_twice: "register f (register f s) = register f s"
  by (cases s) (auto simp: register_def)

text \<open>
  C5. After any sequence of \<^verbatim>\<open>register\<close> calls the callback list is the list of
  the callbacks registered, each once, in the order of their first registration. A
  callback registered twice is in the list once, so a notification invokes it once.
  \<^verbatim>\<open>register\<close> changes nothing else of the watcher, which it returns.
\<close>

theorem register_keeps_first_occurrences:
  assumes "reachable s"
  shows "registeredCallbacks (this (fold register fs s)) =
           rev (remdups (rev (registeredCallbacks (this s) @ fs))) \<and>
         distinct (registeredCallbacks (this (fold register fs s))) \<and>
         (\<forall>f \<in> set fs. count_list (registeredCallbacks (this (fold register fs s))) f = 1) \<and>
         register f (register f s) = register f s \<and>
         invoked (page_of (notify evt (register f (register f s)))) =
           invoked (page_of s) @ map (\<lambda>cb. (cb, evt)) (registeredCallbacks (this (register f s))) \<and>
         count_list (registeredCallbacks (this (register f (register f s)))) f = 1 \<and>
         page_of (fold register fs s) = page_of s \<and> host_of (fold register fs s) = host_of s \<and>
         static (fold register fs s) = static s"
proof -
  have d: "distinct (registeredCallbacks (this s))"
    using reachable_inv [OF assms] by (simp add: watcher_inv_def)
  have a: "registeredCallbacks (this (fold register fs s)) =
           rev (remdups (rev (registeredCallbacks (this s) @ fs)))"
    by (rule fold_register_callbacks [OF d])
  have b: "distinct (registeredCallbacks (this (fold register fs s)))"
    unfolding a by simp
  have c: "\<forall>f \<in> set fs. count_list (registeredCallbacks (this (fold register fs s))) f = 1"
  proof
    fix x assume "x \<in> set fs"
    then have "x \<in> set (registeredCallbacks (this (fold register fs s)))" unfolding a by simp
    with b show "count_list (registeredCallbacks (this (fold register fs s))) x = 1"
      by (simp add: count_list_distinct)
  qed
  have e: "distinct (registeredCallbacks (this (register f s)))"
    using d by (simp add: callbacks_register)
  have g: "count_list (registeredCallbacks (this (register f (register f s)))) f = 1"
    unfolding register_twice using e by (simp add: count_list_distinct callbacks_register)
  show ?thesis
    using a b c g
    by (simp add: register_twice notify_frame page_register fold_register_frame)
qed

text \<open>
  The theorem at the example watcher: registering 7, 8, 7, 9, 8 leaves 7, 8, 9, and
  after registering 7 twice a notification invokes 7 once.
\<close>

theorem register_keeps_first_occurrences_witness:
  "reachable widget_watcher \<and>
   registeredCallbacks (this (fold register [7, 8, 7, 9, 8] widget_watcher)) = [7, 8, 9] \<and>
   invoked (page_of (notify None (register 7 (register 7 widget_watcher)))) = [(7, None)]"
proof -
  have e: "registeredCallbacks (this widget_watcher) = []" "invoked (page_of widget_watcher) = []"
    by (simp_all add: eval_defs)
  have f: "registeredCallbacks (this (register 7 widget_watcher)) = [7]"
    by (simp add: eval_defs)
  note inst = register_keeps_first_occurrences [OF widget_watcher_reachable, of "[7, 8, 7, 9, 8]" 7 None]
  have a: "registeredCallbacks (this (fold register [7, 8, 7, 9, 8] widget_watcher)) = [7, 8, 9]"
    using conjunct1 [OF inst] unfolding e by simp
  have "invoked (page_of (notify None (register 7 (register 7 widget_watcher)))) =
          invoked (page_of widget_watcher) @
          map (\<lambda>cb. (cb, None)) (registeredCallbacks (this (register 7 widget_watcher)))"
    using inst by blast
  then have b: "invoked (page_of (notify None (register 7 (register 7 widget_watcher)))) = [(7, None)]"
    unfolding e f by simp
  from widget_watcher_reachable a b show ?thesis by simp
qed

text \<open>
  C10. \<^verbatim>\<open>call\<close>, \<^verbatim>\<open>cancelPending\<close> and \<^verbatim>\<open>release\<close> leave the callback list
  as it is; \<^verbatim>\<open>register\<close> appends a callback that is not yet in it; and
  \<^verbatim>\<open>call\<close> after \<^verbatim>\<open>release\<close> invokes every registered callback.
\<close>

theorem only_register_changes_callbacks:
  "registeredCallbacks (this (call evt s)) = registeredCallbacks (this s) \<and>
   registeredCallbacks (this (cancelPending s)) = registeredCallbacks (this s) \<and>
   registeredCallbacks (this (release s)) = registeredCallbacks (this s) \<and>
   registeredCallbacks (this (register f s)) =
     (if f \<in> set (registeredCallbacks (this s)) then registeredCallbacks (this s)
      else registeredCallbacks (this s) @ [f]) \<and>
   invoked (page_of (call evt (release s))) =
     invoked (page_of s) @ map (\<lambda>cb. (cb, evt)) (registeredCallbacks (this s))"
  by (simp add: call_def notify_frame cancelPending_frame release_this release_invoked
      callbacks_register)

text \<open>
  In a reachable state no input other than a registration changes the list.
\<close>

lemma step_keeps_callbacks:
  assumes "reachable s"
  shows "registeredCallbacks (this (step i s)) =
           (case i of Register f \<Rightarrow> registeredCallbacks (this (register f s))
                    | _ \<Rightarrow> registeredCallbacks (this s))"
proof -
  have t: "timers_ok s" using reachable_inv [OF assms] by (simp add: watcher_inv_def)
  have c: "registeredCallbacks (this (cleanup recs s)) = registeredCallbacks (this s)" for recs
  proof -
    have "registeredCallbacks (this (fold (\<lambda>el s'. if el = node (element (this s')) then release s' else s') ns x))
            = registeredCallbacks (this x)" for ns x
      by (induction ns arbitrary: x) (simp_all add: release_this)
    then show ?thesis unfolding cleanup_def by (induction recs arbitrary: s) simp_all
  qed
  show ?thesis
    using frame_callbacks [OF frame_runTimer [OF t]] frame_callbacks [OF frame_dispatchEvent [OF t]]
      frame_callbacks [OF frame_elapse] c
    by (cases i) (simp_all add: call_def notify_frame cancelPending_frame release_this)
qed

section \<open>Immediate notification\<close>

text \<open>
  C4. In every reachable state \<^verbatim>\<open>call(evt)\<close> removes the timer whose handle is
  \<^verbatim>\<open>timeoutHandle\<close>, after which no callback-fire timer is pending; it invokes
  the registered callbacks in registration order, each once (the list has no
  duplicates), with \<^verbatim>\<open>evt\<close> or with nothing; and it returns the watcher
  unchanged.
\<close>

theorem call_cancels_and_notifies:
  assumes "reachable s"
  shows "this (call evt s) = this s \<and>
         timers (host_of (call evt s)) =
           filter (\<lambda>e. fst e \<noteq> timeoutHandle (this s)) (timers (host_of s)) \<and>
         idle_fire_timers (call evt s) = [] \<and>
         invoked (page_of (call evt s)) =
           invoked (page_of s) @ map (\<lambda>cb. (cb, evt)) (registeredCallbacks (this s)) \<and>
         distinct (registeredCallbacks (this s))"
proof -
  have i: "watcher_inv s" by (rule reachable_inv [OF assms])
  then have t: "timers_ok s" and d: "distinct (registeredCallbacks (this s))"
    by (simp_all add: watcher_inv_def)
  have "idle_fire_timers (cancelPending s) = []"
    using cancelPending_no_idle [OF t] by (simp add: idle_fire_timers_def filter_empty_conv)
  then have "idle_fire_timers (call evt s) = []"
    by (simp add: idle_fire_timers_def call_def notify_frame)
  then show ?thesis
    using d by (simp add: call_def notify_frame cancelPending_frame)
qed

text \<open>
  The theorem at a state of the example watcher in which the callback-fire timer is
  pending and two callbacks are registered.
\<close>

theorem call_cancels_and_notifies_witness:
  "reachable (run [Register 7, Register 8, Dispatch (Elem 1) click, Elapse 500, TimerDue 2]
                widget_watcher) \<and>
   timers (host_of (run [Register 7, Register 8, Dispatch (Elem 1) click, Elapse 500, TimerDue 2]
                      widget_watcher)) = [(3, 1500, Some Fnotify, [])] \<and>
   timers (host_of (call (Some click)
      (run [Register 7, Register 8, Dispatch (Elem 1) click, Elapse 500, TimerDue 2]
         widget_watcher))) = [] \<and>
   invoked (page_of (call (Some click)
      (run [Register 7, Register 8, Dispatch (Elem 1) click, Elapse 500, TimerDue 2]
         widget_watcher))) = [(7, Some click), (8, Some click)]"
proof -
  have r: "reachable (run [Register 7, Register 8, Dispatch (Elem 1) click, Elapse 500, TimerDue 2]
                widget_watcher)"
    by (rule reachable_run [OF widget_watcher_reachable])
  have e: "run [Register 7, Register 8, Dispatch (Elem 1) click, Elapse 500, TimerDue 2] widget_watcher =
     ((\<lparr>selector = ''#widget'', element = widget,
        eventList = [MOUSEMOVE, ANY_KEY, CLICK, CHANGE], registeredCallbacks = [7, 8],
        notifyOnFocusLoss = True, notifyOnMouseLeave = True, timeoutHandle = 3,
        listener = \<lparr>fn = Some Fpulse, now = False, delay = 500, timer = 2\<rparr>,
        debounced = \<lparr>fn = Some Fnotify, now = False, delay = 1000, timer = 3\<rparr>\<rparr>,
       \<lparr>listeners = [(Elem 1, ''mousemove'', Hlistener), (Elem 1, ''keydown'', Hlistener),
                     (Elem 1, ''click'', Hlistener), (Elem 1, ''change'', Hlistener),
                     (Document, ''focus'', HfocusHandler), (Elem 1, ''mouseleave'', Hnotify)],
        observing = Some 0, contains = (\<lambda>a b. a = b), invoked = []\<rparr>),
      \<lparr>clock = 500, next_handle = 4, timers = [(3, 1500, Some Fnotify, [])]\<rparr>)"
    by (simp add: eval_defs)
  show ?thesis
    using call_cancels_and_notifies [OF r, of "Some click"] r
    unfolding e by (simp add: this_def host_of_def page_of_def)
qed

section \<open>The callback-fire timer\<close>

lemma at_most_one_with_handle:
  "distinct (map fst xs) \<Longrightarrow> \<forall>e \<in> set xs. P e \<longrightarrow> fst e = c \<Longrightarrow> length (filter P xs) \<le> 1"
proof (induction xs)
  case Nil
  show ?case by simp
next
  case (Cons x xs)
  show ?case
  proof (cases "P x")
    case True
    then have "fst x = c" using Cons.prems(2) by simp
    have "fst e \<noteq> fst x" if "e \<in> set xs" for e
      using that Cons.prems(1) by (auto simp: image_iff)
    then have "\<forall>e \<in> set xs. \<not> P e" using Cons.prems(2) \<open>fst x = c\<close> by auto
    then have "filter P xs = []" by (simp add: filter_empty_conv)
    then show ?thesis using True by simp
  next
    case False
    then show ?thesis using Cons by simp
  qed
qed

text \<open>
  C6. In every reachable state at most one callback-fire timer is pending, and its
  handle is \<^verbatim>\<open>timeoutHandle\<close>. The one place that schedules such a timer, the
  pulse, first cancels the pending one (after \<^verbatim>\<open>cancelPending\<close> none is left) and
  then schedules the new one, which is the only one afterwards.
\<close>

theorem at_most_one_idle_fire_timer:
  assumes "reachable s"
  shows "length (idle_fire_timers s) \<le> 1 \<and>
         (\<forall>e \<in> set (idle_fire_timers s). fst e = timeoutHandle (this s)) \<and>
         idle_fire_timers (cancelPending s) = [] \<and>
         idle_fire_timers (pulse s) =
           [(next_handle (host_of s), clock (host_of s) + delay (debounced (this s)),
             Some Fnotify, [])] \<and>
         timeoutHandle (this (pulse s)) = next_handle (host_of s)"
proof -
  have t: "timers_ok s" using reachable_inv [OF assms] by (simp add: watcher_inv_def)
  obtain m p h where s: "s = ((m, p), h)" by (metis prod.exhaust)
  have a: "length (idle_fire_timers s) \<le> 1"
    unfolding idle_fire_timers_def
    by (rule at_most_one_with_handle [where c = "timeoutHandle (this s)"])
       (use t in \<open>auto simp: timers_ok_def s host_of_def this_def\<close>)
  have b: "\<forall>e \<in> set (idle_fire_timers s). fst e = timeoutHandle (this s)"
    using t by (auto simp: timers_ok_def s host_of_def this_def idle_fire_timers_def)
  have c: "idle_fire_timers (cancelPending s) = []"
    using cancelPending_no_idle [OF t] by (simp add: idle_fire_timers_def filter_empty_conv)
  have n: "filter (\<lambda>e. fst (snd (snd e)) = Some Fnotify)
             (filter (\<lambda>e. fst e \<noteq> timeoutHandle m) (timers h)) = []"
    using c by (simp add: idle_fire_timers_def s cancelPending_def clearTimeout_def host_of_def)
  have f: "filter (\<lambda>e. fst (snd (snd e)) = Some Fnotify)
             (filter (\<lambda>e. fst e \<noteq> timer (debounced m))
                (filter (\<lambda>e. fst e \<noteq> timeoutHandle m) (timers h))) = []"
    using n by (auto simp: filter_empty_conv)
  have d: "idle_fire_timers (pulse s) =
           [(next_handle (host_of s), clock (host_of s) + delay (debounced (this s)), Some Fnotify, [])]"
    using t f unfolding s by (simp add: pulse_eq idle_fire_timers_def host_of_def this_def)
  have e: "timeoutHandle (this (pulse s)) = next_handle (host_of s)"
    using t unfolding s by (simp add: pulse_eq host_of_def this_def)
  from a b c d e show ?thesis by simp
qed

text \<open>
  The theorem at the example watcher: a second click while the callback-fire timer
  of the first is pending replaces that timer.
\<close>

theorem at_most_one_idle_fire_timer_witness:
  "reachable (run [Dispatch (Elem 1) click, Elapse 500, TimerDue 2, Dispatch (Elem 1) click,
                   Elapse 500] widget_watcher) \<and>
   idle_fire_timers (run [Dispatch (Elem 1) click, Elapse 500, TimerDue 2, Dispatch (Elem 1) click,
                   Elapse 500] widget_watcher) = [(3, 1500, Some Fnotify, [])] \<and>
   idle_fire_timers (run [Dispatch (Elem 1) click, Elapse 500, TimerDue 2, Dispatch (Elem 1) click,
                   Elapse 500, TimerDue 4] widget_watcher) = [(5, 2000, Some Fnotify, [])] \<and>
   length (idle_fire_timers (run [Dispatch (Elem 1) click, Elapse 500, TimerDue 2,
                   Dispatch (Elem 1) click, Elapse 500] widget_watcher)) \<le> 1"
proof -
  have r: "reachable (run [Dispatch (Elem 1) click, Elapse 500, TimerDue 2, Dispatch (Elem 1) click,
                   Elapse 500] widget_watcher)"
    by (rule reachable_run [OF widget_watcher_reachable])
  have a: "idle_fire_timers (run [Dispatch (Elem 1) click, Elapse 500, TimerDue 2, Dispatch (Elem 1) click,
                   Elapse 500] widget_watcher) = [(3, 1500, Some Fnotify, [])]"
    by (simp add: eval_defs idle_fire_timers_def)
  have b: "idle_fire_timers (run [Dispatch (Elem 1) click, Elapse 500, TimerDue 2, Dispatch (Elem 1) click,
                   Elapse 500, TimerDue 4] widget_watcher) = [(5, 2000, Some Fnotify, [])]"
    by (simp add: eval_defs idle_fire_timers_def)
  show ?thesis
    using at_most_one_idle_fire_timer [OF r] r a b by simp
qed

section \<open>The event each trigger passes\<close>

lemma find_by_handle:
  "distinct (map fst xs) \<Longrightarrow> (t, r) \<in> set xs \<Longrightarrow> find (\<lambda>e. fst e = t) xs = Some (t, r)"
  by (induction xs) (auto simp: image_iff)

lemma filter_single:
  "distinct xs \<Longrightarrow> x \<in> set xs \<Longrightarrow> P x \<Longrightarrow> \<forall>y \<in> set xs. P y \<longrightarrow> y = x \<Longrightarrow> filter P xs = [x]"
proof (induction xs)
  case Nil
  then show ?case by simp
next
  case (Cons a xs)
  show ?case
  proof (cases "a = x")
    case True
    then have "x \<notin> set xs" using Cons.prems(1) by simp
    then have "\<forall>y \<in> set xs. \<not> P y" using Cons.prems(4) by auto
    then have "filter P xs = []" by (simp add: filter_empty_conv)
    then show ?thesis using True Cons.prems(3) by simp
  next
    case False
    then have na: "\<not> P a" using Cons.prems(4) by auto
    have "x \<in> set xs" using Cons.prems(2) False by simp
    moreover have "distinct xs" using Cons.prems(1) by simp
    moreover have "\<forall>y \<in> set xs. P y \<longrightarrow> y = x" using Cons.prems(4) by simp
    ultimately have "filter P xs = [x]" using Cons.IH Cons.prems(3) by blast
    then show ?thesis using na by simp
  qed
qed

lemma event_name_not_mouseleave: "event_name k \<noteq> ''mouseleave''"
  by (cases k) simp_all

lemma idle_timer_passes_no_event:
  assumes "timers_ok s" and "(t, due, Some Fnotify, args) \<in> set (timers (host_of s))"
    and "due \<le> clock (host_of s)"
  shows "invoked (page_of (step (TimerDue t) s)) =
           invoked (page_of s) @ map (\<lambda>cb. (cb, None)) (registeredCallbacks (this s))"
proof -
  obtain m p h where s: "s = ((m, p), h)" by (metis prod.exhaust)
  have d: "distinct (map fst (timers h))" using assms(1) by (simp add: timers_ok_def s)
  have m: "(t, due, Some Fnotify, args) \<in> set (timers h)" using assms(2) by (simp add: s host_of_def)
  have a: "args = []" using assms(1) m by (auto simp: timers_ok_def s)
  have f: "find (\<lambda>e. fst e = t) (timers h) = Some (t, due, Some Fnotify, args)"
    by (rule find_by_handle [OF d m])
  have c: "\<not> clock h < due" using assms(3) by (simp add: s host_of_def)
  show ?thesis
    unfolding s step.simps runTimer_def
    by (simp add: f c a apply_fn_def arg0_def notify_def page_of_def this_def)
qed

lemma mouseleave_passes_event:
  assumes "listeners_ok s"
    and "(Elem (node (element (this s))), ''mouseleave'', Hnotify) \<in> set (listeners (page_of s))"
    and "ev_type evt = ''mouseleave''"
  shows "invoked (page_of (step (Dispatch (Elem (node (element (this s)))) evt) s)) =
           invoked (page_of s) @ map (\<lambda>cb. (cb, Some evt)) (registeredCallbacks (this s))"
proof -
  have "filter (\<lambda>l. fst l = Elem (node (element (this s))) \<and> fst (snd l) = ev_type evt)
          (listeners (page_of s)) = [(Elem (node (element (this s))), ''mouseleave'', Hnotify)]"
  proof (rule filter_single)
    show "distinct (listeners (page_of s))" using assms(1) by (simp add: listeners_ok_def)
    show "(Elem (node (element (this s))), ''mouseleave'', Hnotify) \<in> set (listeners (page_of s))"
      by (rule assms(2))
    show "fst (Elem (node (element (this s))), ''mouseleave'', Hnotify) = Elem (node (element (this s))) \<and>
          fst (snd (Elem (node (element (this s))), ''mouseleave'', Hnotify)) = ev_type evt"
      by (simp add: assms(3))
    show "\<forall>y \<in> set (listeners (page_of s)).
            fst y = Elem (node (element (this s))) \<and> fst (snd y) = ev_type evt \<longrightarrow>
            y = (Elem (node (element (this s))), ''mouseleave'', Hnotify)"
      using assms(1) event_name_not_mouseleave
      by (auto simp: listeners_ok_def subscriptions_def assms(3) split: if_splits)
  qed
  then show ?thesis
    by (simp add: dispatchEvent_def run_handler_def notify_frame)
qed

lemma focus_loss_passes_no_event:
  assumes "listeners_ok s"
    and "(Document, ''focus'', HfocusHandler) \<in> set (listeners (page_of s))"
    and "ev_type evt = ''focus''"
    and "\<not> contains (page_of s) (node (element (this s))) (ev_target evt)"
  shows "invoked (page_of (step (Dispatch Document evt) s)) =
           invoked (page_of s) @ map (\<lambda>cb. (cb, None)) (registeredCallbacks (this s))"
proof -
  have "filter (\<lambda>l. fst l = Document \<and> fst (snd l) = ev_type evt)
          (listeners (page_of s)) = [(Document, ''focus'', HfocusHandler)]"
  proof (rule filter_single)
    show "distinct (listeners (page_of s))" using assms(1) by (simp add: listeners_ok_def)
    show "(Document, ''focus'', HfocusHandler) \<in> set (listeners (page_of s))"
      by (rule assms(2))
    show "fst (Document, ''focus'', HfocusHandler) = Document \<and>
          fst (snd (Document, ''focus'', HfocusHandler)) = ev_type evt"
      by (simp add: assms(3))
    show "\<forall>y \<in> set (listeners (page_of s)).
            fst y = Document \<and> fst (snd y) = ev_type evt \<longrightarrow> y = (Document, ''focus'', HfocusHandler)"
      using assms(1)
      by (auto simp: listeners_ok_def subscriptions_def assms(3) split: if_splits)
  qed
  moreover have "invoked (page_of (focusHandler evt s)) =
           invoked (page_of s) @ map (\<lambda>cb. (cb, None)) (registeredCallbacks (this s))"
    using assms(4)
    by (auto simp: focusHandler_def notify_def cancelPending_def page_of_def this_def
        split: prod.splits)
  ultimately show ?thesis
    by (simp add: dispatchEvent_def run_handler_def)
qed

text \<open>
  C8. In every reachable state: a callback-fire timer that runs invokes the
  callbacks with no event; a mouse-leave event delivered to the subscribed watcher
  invokes them with that event; a focus event whose target lies outside the element,
  delivered to the subscribed watcher, invokes them with no event.
\<close>

theorem event_argument_of_each_trigger:
  assumes "reachable s"
  shows "((t, due, Some Fnotify, args) \<in> set (timers (host_of s)) \<and> due \<le> clock (host_of s) \<longrightarrow>
            invoked (page_of (step (TimerDue t) s)) =
              invoked (page_of s) @ map (\<lambda>cb. (cb, None)) (registeredCallbacks (this s))) \<and>
         ((Elem (node (element (this s))), ''mouseleave'', Hnotify) \<in> set (listeners (page_of s)) \<and>
          ev_type leave = ''mouseleave'' \<longrightarrow>
            invoked (page_of (step (Dispatch (Elem (node (element (this s)))) leave) s)) =
              invoked (page_of s) @ map (\<lambda>cb. (cb, Some leave)) (registeredCallbacks (this s))) \<and>
         ((Document, ''focus'', HfocusHandler) \<in> set (listeners (page_of s)) \<and>
          ev_type focus = ''focus'' \<and>
          \<not> contains (page_of s) (node (element (this s))) (ev_target focus) \<longrightarrow>
            invoked (page_of (step (Dispatch Document focus) s)) =
              invoked (page_of s) @ map (\<lambda>cb. (cb, None)) (registeredCallbacks (this s)))"
proof -
  have i: "watcher_inv s" by (rule reachable_inv [OF assms])
  then have t: "timers_ok s" and l: "listeners_ok s" by (simp_all add: watcher_inv_def)
  show ?thesis
    using idle_timer_passes_no_event [OF t] mouseleave_passes_event [OF l]
      focus_loss_passes_no_event [OF l]
    by blast
qed

text \<open>
  The theorem at the example watcher with one callback, at time 1500 with the
  callback-fire timer due.
\<close>

theorem event_argument_of_each_trigger_witness:
  "reachable (run [Register 7, Dispatch (Elem 1) click, Elapse 500, TimerDue 2, Elapse 1000]
                widget_watcher) \<and>
   timers (host_of (run [Register 7, Dispatch (Elem 1) click, Elapse 500, TimerDue 2, Elapse 1000]
                      widget_watcher)) = [(3, 1500, Some Fnotify, [])] \<and>
   invoked (page_of (step (TimerDue 3)
      (run [Register 7, Dispatch (Elem 1) click, Elapse 500, TimerDue 2, Elapse 1000]
         widget_watcher))) = [(7, None)] \<and>
   invoked (page_of (step (Dispatch (Elem 1) mouseleave)
      (run [Register 7, Dispatch (Elem 1) click, Elapse 500, TimerDue 2, Elapse 1000]
         widget_watcher))) = [(7, Some mouseleave)] \<and>
   invoked (page_of (step (Dispatch Document focus_elsewhere)
      (run [Register 7, Dispatch (Elem 1) click, Elapse 500, TimerDue 2, Elapse 1000]
         widget_watcher))) = [(7, None)]"
proof -
  have r: "reachable (run [Register 7, Dispatch (Elem 1) click, Elapse 500, TimerDue 2, Elapse 1000]
                widget_watcher)"
    by (rule reachable_run [OF widget_watcher_reachable])
  have e: "run [Register 7, Dispatch (Elem 1) click, Elapse 500, TimerDue 2, Elapse 1000] widget_watcher =
     ((\<lparr>selector = ''#widget'', element = widget,
        eventList = [MOUSEMOVE, ANY_KEY, CLICK, CHANGE], registeredCallbacks = [7],
        notifyOnFocusLoss = True, notifyOnMouseLeave = True, timeoutHandle = 3,
        listener = \<lparr>fn = Some Fpulse, now = False, delay = 500, timer = 2\<rparr>,
        debounced = \<lparr>fn = Some Fnotify, now = False, delay = 1000, timer = 3\<rparr>\<rparr>,
       \<lparr>listeners = [(Elem 1, ''mousemove'', Hlistener), (Elem 1, ''keydown'', Hlistener),
                     (Elem 1, ''click'', Hlistener), (Elem 1, ''change'', Hlistener),
                     (Document, ''focus'', HfocusHandler), (Elem 1, ''mouseleave'', Hnotify)],
        observing = Some 0, contains = (\<lambda>a b. a = b), invoked = []\<rparr>),
      \<lparr>clock = 1500, next_handle = 4, timers = [(3, 1500, Some Fnotify, [])]\<rparr>)"
    by (simp add: eval_defs)
  show ?thesis
    using event_argument_of_each_trigger [OF r, of 3 1500 "[]" mouseleave focus_elsewhere] r
    unfolding e
    by (simp add: this_def host_of_def page_of_def widget_def mouseleave_def focus_elsewhere_def)
qed

section \<open>Release and removal of the target\<close>

lemma quiet_step_event:
  "quiet s \<Longrightarrow> event_or_time i \<Longrightarrow>
   page_of (step i s) = page_of s \<and> this (step i s) = this s \<and>
   timers (host_of (step i s)) = timers (host_of s)"
  by (cases i; cases s)
     (simp_all add: quiet_def dispatchEvent_def elapse_def page_of_def this_def host_of_def)

lemma quiet_run_event:
  "quiet s \<Longrightarrow> list_all event_or_time ins \<Longrightarrow>
   page_of (run ins s) = page_of s \<and> this (run ins s) = this s \<and>
   timers (host_of (run ins s)) = timers (host_of s)"
proof (induction ins arbitrary: s)
  case Nil
  then show ?case by (simp add: run_def)
next
  case (Cons i ins)
  have st: "page_of (step i s) = page_of s \<and> this (step i s) = this s \<and>
            timers (host_of (step i s)) = timers (host_of s)"
    using Cons.prems by (simp add: quiet_step_event)
  then have q: "quiet (step i s)" using Cons.prems(1) by (simp add: quiet_def)
  have "list_all event_or_time ins" using Cons.prems(2) by simp
  from Cons.IH [OF q this] st show ?case by (simp add: run_def)
qed

lemma quiet_step_automatic:
  "quiet s \<Longrightarrow> timers (host_of s) = [] \<Longrightarrow> automatic i \<Longrightarrow>
   page_of (step i s) = page_of s \<and> timers (host_of (step i s)) = []"
  by (cases i; cases s)
     (simp_all add: quiet_def dispatchEvent_def elapse_def runTimer_def page_of_def host_of_def)

lemma quiet_run_automatic:
  "quiet s \<Longrightarrow> timers (host_of s) = [] \<Longrightarrow> list_all automatic ins \<Longrightarrow>
   page_of (run ins s) = page_of s"
proof (induction ins arbitrary: s)
  case Nil
  then show ?case by (simp add: run_def)
next
  case (Cons i ins)
  have st: "page_of (step i s) = page_of s \<and> timers (host_of (step i s)) = []"
    using Cons.prems by (simp add: quiet_step_automatic)
  then have q: "quiet (step i s)" using Cons.prems(1) by (simp add: quiet_def)
  have "list_all automatic ins" using Cons.prems(3) by simp
  from Cons.IH [OF q _ this] st show ?case by (simp add: run_def)
qed

lemma release_quiet: "listeners_ok s \<Longrightarrow> quiet (release s)"
  by (simp add: quiet_def release_unsubscribes release_observing)

text \<open>
  What \<^verbatim>\<open>release()\<close> achieves. Afterwards the watcher has no listener and its
  observer is disconnected, so no event the page delivers (interaction, focus,
  mouse-leave, a report of removed nodes) and no passing of time invokes a callback
  or changes the pending timers. When no timer is pending at release, nothing that
  happens without the holder afterwards, the running of timers included, invokes a
  callback.
\<close>

lemma events_after_release_invoke_nothing:
  assumes "reachable s"
  shows "listeners (page_of (release s)) = [] \<and> observing (page_of (release s)) = None \<and>
         (\<forall>ins. list_all event_or_time ins \<longrightarrow>
            invoked (page_of (run ins (release s))) = invoked (page_of s) \<and>
            timers (host_of (run ins (release s))) = timers (host_of (release s))) \<and>
         (timers (host_of s) = [] \<longrightarrow>
            (\<forall>ins. list_all automatic ins \<longrightarrow>
               invoked (page_of (run ins (release s))) = invoked (page_of s)))"
proof -
  have ok: "listeners_ok s" using reachable_inv [OF assms] by (simp add: watcher_inv_def)
  have q: "quiet (release s)" by (rule release_quiet [OF ok])
  have a: "listeners (page_of (release s)) = [] \<and> observing (page_of (release s)) = None"
    using q by (simp add: quiet_def)
  have c: "\<forall>ins. list_all event_or_time ins \<longrightarrow>
            invoked (page_of (run ins (release s))) = invoked (page_of s) \<and>
            timers (host_of (run ins (release s))) = timers (host_of (release s))"
    using quiet_run_event [OF q] by (simp add: release_invoked)
  have d: "timers (host_of s) = [] \<longrightarrow>
            (\<forall>ins. list_all automatic ins \<longrightarrow>
               invoked (page_of (run ins (release s))) = invoked (page_of s))"
    using quiet_run_automatic [OF q] by (simp add: release_invoked release_host)
  from a c d show ?thesis by blast
qed

text \<open>
  C2 says that after \<^verbatim>\<open>release()\<close> no automatic notification occurs and no
  callback-fire timer is scheduled, and names a previously pending debounce timer
  among the things that must not invoke the callbacks. The code does not do this:
  \<^verbatim>\<open>release()\<close> clears no timer, although its comment promises to release all
  resources and \<^verbatim>\<open>cancelPending\<close> is at hand (\<^verbatim>\<open>call\<close> and \<^verbatim>\<open>focusHandler\<close>
  use it). Here a click at time 0 arms the event-debounce timer and \<^verbatim>\<open>release()\<close>
  follows, leaving no listener and two timers pending. At time 500 the event-debounce
  timer runs and schedules a callback-fire timer, after release; at time 1500 that
  timer runs and invokes the registered callback.
\<close>

theorem release_leaves_pending_timers:
  "constructor widget_params no_document (blank_page, blank_host) = Inr widget_watcher \<and>
   invoked (page_of (run [Register 7, Dispatch (Elem 1) click, Release] widget_watcher)) = [] \<and>
   listeners (page_of (run [Register 7, Dispatch (Elem 1) click, Release] widget_watcher)) = [] \<and>
   timers (host_of (run [Register 7, Dispatch (Elem 1) click, Release] widget_watcher)) =
     [(1, 0, Some Fnoop, []), (2, 500, Some Fpulse, [click])] \<and>
   timers (host_of (run [Register 7, Dispatch (Elem 1) click, Release, Elapse 500, TimerDue 2]
                      widget_watcher)) = [(3, 1500, Some Fnotify, [])] \<and>
   invoked (page_of (run [Register 7, Dispatch (Elem 1) click, Release, Elapse 500, TimerDue 2,
                          Elapse 1000, TimerDue 3] widget_watcher)) = [(7, None)]"
  using widget_watcher_constructed by (simp add: eval_defs)

lemma removed_fold:
  "fold (\<lambda>el s'. if el = node (element (this s')) then release s' else s') ns s =
     (if node (element (this s)) \<in> set ns then release s else s)"
proof (induction ns arbitrary: s)
  case Nil
  show ?case by simp
next
  case (Cons n ns)
  show ?case
    by (simp add: Cons [of "release s"] Cons [of s] release_this release_idem)
qed

lemma records_fold:
  "fold (\<lambda>r s'. if node (element (this s')) \<in> set r then release s' else s') recs s =
     (if \<exists>r \<in> set recs. node (element (this s)) \<in> set r then release s else s)"
proof (induction recs arbitrary: s)
  case Nil
  show ?case by simp
next
  case (Cons r recs)
  show ?case
  proof (cases "node (element (this s)) \<in> set r")
    case True
    then show ?thesis using Cons [of "release s"] by (simp add: release_this release_idem)
  next
    case False
    then show ?thesis using Cons [of s] by simp
  qed
qed

lemma cleanup_eq:
  "cleanup recs s =
     (if \<exists>r \<in> set recs. node (element (this s)) \<in> set r then release s else s)"
  unfolding cleanup_def removed_fold by (rule records_fold)

text \<open>
  C7. When the nodes reported as removed include the target, the observer's
  callback has exactly the effect of \<^verbatim>\<open>release()\<close>; for a connected observer
  that is the whole reaction to the report. Afterwards the watcher has no listener
  and no connected observer, and no event delivered later invokes a callback or
  changes the pending timers.
\<close>

theorem removal_of_target_releases:
  assumes "reachable s" and "\<exists>r \<in> set recs. node (element (this s)) \<in> set r"
  shows "cleanup recs s = release s \<and>
         (observing (page_of s) \<noteq> None \<longrightarrow> step (Mutations recs) s = release s) \<and>
         listeners (page_of (cleanup recs s)) = [] \<and>
         observing (page_of (cleanup recs s)) = None \<and>
         (\<forall>ins. list_all event_or_time ins \<longrightarrow>
            invoked (page_of (run ins (cleanup recs s))) = invoked (page_of s) \<and>
            timers (host_of (run ins (cleanup recs s))) = timers (host_of s))"
proof -
  have c: "cleanup recs s = release s" using assms(2) by (simp add: cleanup_eq)
  have ok: "listeners_ok s" using reachable_inv [OF assms(1)] by (simp add: watcher_inv_def)
  have q: "quiet (release s)" by (rule release_quiet [OF ok])
  have e: "\<forall>ins. list_all event_or_time ins \<longrightarrow>
            invoked (page_of (run ins (release s))) = invoked (page_of s) \<and>
            timers (host_of (run ins (release s))) = timers (host_of s)"
    using quiet_run_event [OF q] by (simp add: release_invoked release_host)
  show ?thesis
    unfolding c using q e by (simp add: quiet_def c)
qed

text \<open>
  The theorem at the example watcher: the report of the removal of nodes 5, 4 and 1
  releases it, and a later click and mouse-leave invoke nothing.
\<close>

theorem removal_of_target_releases_witness:
  "reachable (run [Register 7] widget_watcher) \<and>
   step (Mutations [[5], [4, 1]]) (run [Register 7] widget_watcher) =
     release (run [Register 7] widget_watcher) \<and>
   listeners (page_of (step (Mutations [[5], [4, 1]]) (run [Register 7] widget_watcher))) = [] \<and>
   invoked (page_of (run [Dispatch (Elem 1) click, Elapse 2000, Dispatch (Elem 1) mouseleave]
                       (cleanup [[5], [4, 1]] (run [Register 7] widget_watcher)))) = []"
proof -
  have r: "reachable (run [Register 7] widget_watcher)"
    by (rule reachable_run [OF widget_watcher_reachable])
  have n: "node (element (this (run [Register 7] widget_watcher))) = 1"
    "observing (page_of (run [Register 7] widget_watcher)) = Some 0"
    "invoked (page_of (run [Register 7] widget_watcher)) = []"
    by (simp_all add: eval_defs)
  have x: "\<exists>r \<in> set [[5], [4, 1]]. node (element (this (run [Register 7] widget_watcher))) \<in> set r"
    unfolding n by simp
  note inst = removal_of_target_releases [OF r x]
  have st: "step (Mutations [[5], [4, 1]]) (run [Register 7] widget_watcher) =
              cleanup [[5], [4, 1]] (run [Register 7] widget_watcher)"
    by (simp add: n)
  have a: "cleanup [[5], [4, 1]] (run [Register 7] widget_watcher) =
             release (run [Register 7] widget_watcher)"
    using inst by blast
  have b: "listeners (page_of (cleanup [[5], [4, 1]] (run [Register 7] widget_watcher))) = []"
    using inst by blast
  have "list_all event_or_time [Dispatch (Elem 1) click, Elapse 2000, Dispatch (Elem 1) mouseleave]"
    by simp
  then have c: "invoked (page_of (run [Dispatch (Elem 1) click, Elapse 2000, Dispatch (Elem 1) mouseleave]
                       (cleanup [[5], [4, 1]] (run [Register 7] widget_watcher)))) =
                invoked (page_of (run [Register 7] widget_watcher))"
    using inst by blast
  show ?thesis
    unfolding st using r a b c n(3) by simp
qed

end
